theory Spec2Isabelle
  imports Main "HOL-Library.Word" "HOL-Library.Monad_Syntax"
begin

unbundle bit_operations_syntax

section \<open>WordCounter: common types\<close>

text \<open>
  The return status of a routine (memstructs.h). Sizes and cursors (\<open>size_t\<close>,
  \<open>uint32_t\<close>) are modelled as natural numbers: they count bytes and slots of
  structures that live in memory, and stay far below the width of the machine type.
  The hash and the rounding to a power of two are bit-level and are modelled on
  64-bit words. A pointer is a natural number, \<open>0\<close> being \<open>NULL\<close>.
\<close>

datatype RetStatus = SUCCESS | DATA_STRUCT_FULL | GEN_FAIL

definition NUL :: char where
  "NUL = CHR 0x00"

text \<open>
  The allocator is outside the program. Its answers are a parameter of the model:
  \<open>heap n\<close> is the address returned for a request of \<open>n\<close> units, \<open>0\<close> when the
  request fails.
\<close>

type_synonym allocator = "nat \<Rightarrow> nat"

section \<open>Word Buffer (memstructs.c)\<close>

text \<open>
  \<open>wb_letters\<close> is the character array of \<open>wb_capacity\<close> cells, \<open>wb_curPosition\<close>
  the cursor. The array is kept null-terminated at the cursor.
\<close>

record WordBuffer =
  wb_letters :: string
  wb_curPosition :: nat
  wb_capacity :: nat

definition WordBuffer_init :: "allocator \<Rightarrow> nat \<Rightarrow> WordBuffer option" where
  "WordBuffer_init heap initLen =
     (if initLen < 2 then None
      else if heap initLen = 0 then None
      else Some \<lparr>wb_letters = replicate initLen NUL, wb_curPosition = 0,
                 wb_capacity = initLen\<rparr>)"

definition WordBuffer_create :: "allocator \<Rightarrow> nat \<Rightarrow> WordBuffer option" where
  "WordBuffer_create heap initLen = WordBuffer_init heap initLen"

definition WordBuffer_push_char ::
    "allocator \<Rightarrow> WordBuffer \<Rightarrow> char \<Rightarrow> RetStatus \<times> WordBuffer" where
  "WordBuffer_push_char heap wbuf newChar =
     (let grown =
        (if wb_curPosition wbuf \<ge> wb_capacity wbuf - 1 then
           (let len = wb_capacity wbuf * 2 in
            if heap len \<noteq> 0
            then Some (wbuf\<lparr>wb_letters := wb_letters wbuf @ replicate (len - wb_capacity wbuf) NUL,
                            wb_capacity := len\<rparr>)
            else None)
         else Some wbuf)
      in case grown of
           None \<Rightarrow> (GEN_FAIL, wbuf)
         | Some w \<Rightarrow>
            (SUCCESS,
             w\<lparr>wb_letters := (wb_letters w)[wb_curPosition w := newChar,
                                             wb_curPosition w + 1 := NUL],
               wb_curPosition := wb_curPosition w + 1\<rparr>))"

definition WordBuffer_backspace :: "WordBuffer \<Rightarrow> WordBuffer" where
  "WordBuffer_backspace wbuf =
     (if wb_curPosition wbuf \<ge> 1
      then wbuf\<lparr>wb_letters := (wb_letters wbuf)[wb_curPosition wbuf - 1 := NUL],
                wb_curPosition := wb_curPosition wbuf - 1\<rparr>
      else wbuf)"

definition WordBuffer_clear :: "WordBuffer \<Rightarrow> WordBuffer" where
  "WordBuffer_clear wbuf = wbuf\<lparr>wb_letters := (wb_letters wbuf)[0 := NUL], wb_curPosition := 0\<rparr>"

text \<open>
  \<open>string_copy\<close> (utils.c) is \<open>strncpy\<close> behind a null check: the characters of the
  source up to its terminator, at most \<open>cnt\<close> of them, padded with terminators to
  \<open>cnt\<close> cells.
\<close>

definition strncpy :: "string \<Rightarrow> nat \<Rightarrow> string" where
  "strncpy src cnt =
     (let s = take cnt (takeWhile (\<lambda>c. c \<noteq> NUL) src)
      in s @ replicate (cnt - length s) NUL)"

text \<open>The text of a buffer as a C string: the characters before the first terminator.\<close>

definition c_str :: "string \<Rightarrow> string" where
  "c_str cells = takeWhile (\<lambda>c. c \<noteq> NUL) cells"

section \<open>Word Buffer Vector (memstructs.c)\<close>

text \<open>
  \<open>vec_buffers\<close> holds the initialised elements of the array, that is the first
  \<open>vec_curPosition\<close> of its \<open>vec_capacity\<close> cells.
\<close>

record WordBufferVector =
  vec_buffers :: "WordBuffer list"
  vec_curPosition :: nat
  vec_capacity :: nat

definition WordBufferVector_create :: "allocator \<Rightarrow> nat \<Rightarrow> WordBufferVector option" where
  "WordBufferVector_create heap initLen =
     (if heap initLen = 0 then None
      else Some \<lparr>vec_buffers = [], vec_curPosition = 0, vec_capacity = initLen\<rparr>)"

definition WordBufferVector_push ::
    "allocator \<Rightarrow> WordBufferVector \<Rightarrow> WordBuffer \<Rightarrow> RetStatus \<times> WordBufferVector" where
  "WordBufferVector_push heap vec wbuf =
     (let grown =
        (if vec_curPosition vec \<ge> vec_capacity vec - 1 then
           (let newLen = vec_capacity vec * 2 in
            if heap newLen \<noteq> 0 then Some (vec\<lparr>vec_capacity := newLen\<rparr>) else None)
         else Some vec)
      in case grown of
           None \<Rightarrow> (GEN_FAIL, vec)
         | Some v \<Rightarrow>
            (case WordBuffer_init heap (wb_curPosition wbuf + 1) of
               None \<Rightarrow> (GEN_FAIL, v)
             | Some slot \<Rightarrow>
                (SUCCESS,
                 v\<lparr>vec_buffers := vec_buffers v @
                      [slot\<lparr>wb_capacity := wb_curPosition wbuf + 1,
                            wb_curPosition := wb_curPosition wbuf,
                            wb_letters := strncpy (wb_letters wbuf) (wb_curPosition wbuf + 1)\<rparr>],
                   vec_curPosition := vec_curPosition v + 1\<rparr>)))"

definition WordBufferVector_at :: "WordBufferVector \<Rightarrow> nat \<Rightarrow> WordBuffer" where
  "WordBufferVector_at vec index = vec_buffers vec ! index"

definition WordBufferVector_get_size :: "WordBufferVector \<Rightarrow> nat" where
  "WordBufferVector_get_size vec = vec_curPosition vec"

text \<open>The words of the Token List, in order.\<close>

definition vec_words :: "WordBufferVector \<Rightarrow> string list" where
  "vec_words vec = map (\<lambda>b. c_str (wb_letters b)) (vec_buffers vec)"

section \<open>Tokenizer (wordcount.c)\<close>

definition to_lowercase :: "char \<Rightarrow> char" where
  "to_lowercase lt = char_of ((of_char lt :: nat) OR 0x20)"

definition is_letter :: "char \<Rightarrow> bool" where
  "is_letter ch =
     (let lowch = to_lowercase ch
      in (of_char lowch :: nat) \<ge> of_char (CHR ''a'') \<and> (of_char lowch :: nat) \<le> of_char (CHR ''z''))"

definition is_number :: "char \<Rightarrow> bool" where
  "is_number ch =
     ((of_char ch :: nat) \<ge> of_char (CHR ''0'') \<and> (of_char ch :: nat) \<le> of_char (CHR ''9''))"

definition inWrdSymbols :: "char list" where
  "inWrdSymbols = [CHR ''-'', CHR 0x27, CHR ''%'', CHR '','', CHR ''.'', CHR ''@'']"

definition is_inword_symbol :: "char \<Rightarrow> bool" where
  "is_inword_symbol ch = foldl (\<lambda>isSym s. isSym \<or> ch = s) False inWrdSymbols"

datatype InputCharType = LETTER | NUMBER | IN_WORD_SYMBOL | OTHER_SYMBOL

definition get_char_type :: "char \<Rightarrow> InputCharType" where
  "get_char_type ch =
     (if is_letter ch then LETTER
      else if is_number ch then NUMBER
      else if is_inword_symbol ch then IN_WORD_SYMBOL
      else OTHER_SYMBOL)"

datatype InputState = BETWEEN_WORDS | IN_WORD_AFTER_ALPHARITH | IN_WORD_AFTER_SYMBOL

definition INITIAL_WORD_BUFFER_LENGTH :: nat where
  "INITIAL_WORD_BUFFER_LENGTH = 16"

type_synonym input_cursor = "InputState \<times> WordBuffer \<times> WordBufferVector"

text \<open>Appending a character to the word buffer and moving to the given state.\<close>

definition push_then :: "allocator \<Rightarrow> WordBuffer \<Rightarrow> WordBufferVector \<Rightarrow> char \<Rightarrow> InputState
    \<Rightarrow> RetStatus \<times> input_cursor" where
  "push_then heap wbuf vec c st =
     (case WordBuffer_push_char heap wbuf c of
        (SUCCESS, wbuf') \<Rightarrow> (SUCCESS, (st, wbuf', vec))
      | (_, wbuf') \<Rightarrow> (GEN_FAIL, (st, wbuf', vec)))"

text \<open>Pushing the word buffer to the vector, clearing it and going between words.\<close>

definition flush_then :: "allocator \<Rightarrow> InputState \<Rightarrow> WordBuffer \<Rightarrow> WordBufferVector
    \<Rightarrow> RetStatus \<times> input_cursor" where
  "flush_then heap state wbuf vec =
     (case WordBufferVector_push heap vec wbuf of
        (SUCCESS, vec') \<Rightarrow> (SUCCESS, (BETWEEN_WORDS, WordBuffer_clear wbuf, vec'))
      | (_, vec') \<Rightarrow> (GEN_FAIL, (state, wbuf, vec')))"

text \<open>One iteration of the reading loop of \<open>get_input\<close>: the switch on the state.\<close>

definition get_input_char :: "allocator \<Rightarrow> input_cursor \<Rightarrow> char \<Rightarrow> RetStatus \<times> input_cursor" where
  "get_input_char heap cur newChar =
     (case cur of (state, wbuf, vec) \<Rightarrow>
      (let inpType = get_char_type newChar in
       case state of
         BETWEEN_WORDS \<Rightarrow>
           (case inpType of
              LETTER \<Rightarrow> push_then heap wbuf vec (to_lowercase newChar) IN_WORD_AFTER_ALPHARITH
            | NUMBER \<Rightarrow> push_then heap wbuf vec newChar IN_WORD_AFTER_ALPHARITH
            | _ \<Rightarrow> (SUCCESS, (BETWEEN_WORDS, wbuf, vec)))
       | IN_WORD_AFTER_ALPHARITH \<Rightarrow>
           (case inpType of
              LETTER \<Rightarrow> push_then heap wbuf vec (to_lowercase newChar) IN_WORD_AFTER_ALPHARITH
            | NUMBER \<Rightarrow> push_then heap wbuf vec newChar IN_WORD_AFTER_ALPHARITH
            | IN_WORD_SYMBOL \<Rightarrow> push_then heap wbuf vec newChar IN_WORD_AFTER_SYMBOL
            | OTHER_SYMBOL \<Rightarrow> flush_then heap state wbuf vec)
       | IN_WORD_AFTER_SYMBOL \<Rightarrow>
           (case inpType of
              LETTER \<Rightarrow> push_then heap wbuf vec (to_lowercase newChar) IN_WORD_AFTER_ALPHARITH
            | NUMBER \<Rightarrow> push_then heap wbuf vec newChar IN_WORD_AFTER_ALPHARITH
            | _ \<Rightarrow> flush_then heap state (WordBuffer_backspace wbuf) vec)))"

fun get_input_loop :: "allocator \<Rightarrow> input_cursor \<Rightarrow> string \<Rightarrow> RetStatus \<times> input_cursor" where
  "get_input_loop heap cur [] = (SUCCESS, cur)"
| "get_input_loop heap cur (newChar # rest) =
     (case get_input_char heap cur newChar of
        (SUCCESS, cur') \<Rightarrow> get_input_loop heap cur' rest
      | (st, cur') \<Rightarrow> (st, cur'))"

text \<open>The switch on the state after the end of the input.\<close>

definition get_input_eof :: "allocator \<Rightarrow> input_cursor \<Rightarrow> RetStatus \<times> WordBufferVector" where
  "get_input_eof heap cur =
     (case cur of (state, wbuf, vec) \<Rightarrow>
       (case state of
          IN_WORD_AFTER_ALPHARITH \<Rightarrow>
            (case WordBufferVector_push heap vec wbuf of
               (SUCCESS, vec') \<Rightarrow> (SUCCESS, vec')
             | (_, vec') \<Rightarrow> (GEN_FAIL, vec'))
        | IN_WORD_AFTER_SYMBOL \<Rightarrow>
            (case WordBufferVector_push heap vec (WordBuffer_backspace wbuf) of
               (SUCCESS, vec') \<Rightarrow> (SUCCESS, vec')
             | (_, vec') \<Rightarrow> (GEN_FAIL, vec'))
        | BETWEEN_WORDS \<Rightarrow> (SUCCESS, vec)))"

definition get_input :: "allocator \<Rightarrow> WordBufferVector \<Rightarrow> string \<Rightarrow> RetStatus \<times> WordBufferVector" where
  "get_input heap vec inp =
     (case WordBuffer_create heap INITIAL_WORD_BUFFER_LENGTH of
        None \<Rightarrow> (GEN_FAIL, vec)
      | Some wbuf \<Rightarrow>
         (case get_input_loop heap (BETWEEN_WORDS, wbuf, vec) inp of
            (SUCCESS, cur) \<Rightarrow> get_input_eof heap cur
          | (_, (_, _, vec')) \<Rightarrow> (GEN_FAIL, vec')))"

definition INITIAL_WORD_VECTOR_LENGTH :: nat where
  "INITIAL_WORD_VECTOR_LENGTH = 128"

text \<open>
  The tokens of an input text: the vector created by \<open>main\<close> and filled by
  \<open>get_input\<close>; \<open>None\<close> when an allocation fails.
\<close>

definition tokenize :: "allocator \<Rightarrow> string \<Rightarrow> WordBufferVector option" where
  "tokenize heap inp =
     (case WordBufferVector_create heap INITIAL_WORD_VECTOR_LENGTH of
        None \<Rightarrow> None
      | Some vec \<Rightarrow>
         (case get_input heap vec inp of
            (SUCCESS, vec') \<Rightarrow> Some vec'
          | _ \<Rightarrow> None))"

text \<open>An allocator that grants every request.\<close>

definition plenty :: allocator where
  "plenty n = 4096"


section \<open>Hashing and rounding (utils.c)\<close>

definition FNV_OFFSET :: "64 word" where
  "FNV_OFFSET = 0xcbf29ce484222325"

definition FNV_PRIME :: "64 word" where
  "FNV_PRIME = 0x100000001b3"

text \<open>FNV-1a over the given bytes, in 64-bit arithmetic.\<close>

definition fnvhash :: "string \<Rightarrow> 64 word" where
  "fnvhash hword = foldl (\<lambda>hash c. (hash XOR of_nat (of_char c)) * FNV_PRIME) FNV_OFFSET hword"

definition next_2power :: "64 word \<Rightarrow> 64 word" where
  "next_2power num =
     (if num = 0 then 1
      else
        (let v = num - 1;
             v = v OR drop_bit 1 v;
             v = v OR drop_bit 2 v;
             v = v OR drop_bit 4 v;
             v = v OR drop_bit 8 v;
             v = v OR drop_bit 16 v;
             v = v OR drop_bit 32 v
         in v + 1))"

text \<open>
  The value of an expression of type \<open>uint32_t\<close>: a subtraction below zero wraps
  around.
\<close>

definition u32 :: "int \<Rightarrow> nat" where
  "u32 i = nat (i mod 2 ^ 32)"

text \<open>A checked read of an array cell: \<open>None\<close> is a read outside the array.\<close>

definition at :: "'a list \<Rightarrow> nat \<Rightarrow> 'a option" where
  "at xs i = (if i < length xs then Some (xs ! i) else None)"

text \<open>
  \<open>strcmp\<close> on the texts of two C strings: the sign of the first difference, the
  characters compared as unsigned bytes.
\<close>

fun strcmp :: "string \<Rightarrow> string \<Rightarrow> int" where
  "strcmp [] [] = 0"
| "strcmp [] (b # bs) = - int (of_char b)"
| "strcmp (a # as) [] = int (of_char a)"
| "strcmp (a # as) (b # bs) =
     (if a = b then strcmp as bs else int (of_char a) - int (of_char b))"

section \<open>Memory Pool (memstructs.c)\<close>

text \<open>
  The pool owns one block of the heap: \<open>mp_memSpace\<close> is its address and
  \<open>mp_cells\<close> its content. An address is inside the block when it lies between
  \<open>mp_memSpace\<close> and \<open>mp_memSpace + length mp_cells\<close>; a read or write through any
  other address has no defined result (\<open>None\<close>).
\<close>

record MemoryPool =
  mp_memSpace :: nat
  mp_cells :: string
  mp_nextChar :: nat
  mp_capacity :: nat

definition MemoryPool_init :: "allocator \<Rightarrow> nat \<Rightarrow> MemoryPool option" where
  "MemoryPool_init heap initCapacity =
     (if heap initCapacity = 0 then None
      else Some \<lparr>mp_memSpace = heap initCapacity, mp_cells = replicate initCapacity NUL,
                 mp_nextChar = 0, mp_capacity = initCapacity\<rparr>)"

definition MemoryPool_alloc_block :: "MemoryPool \<Rightarrow> nat \<Rightarrow> nat \<times> MemoryPool" where
  "MemoryPool_alloc_block memp numChars =
     (if mp_nextChar memp + numChars < mp_capacity memp
      then (mp_memSpace memp + mp_nextChar memp,
            memp\<lparr>mp_nextChar := mp_nextChar memp + numChars\<rparr>)
      else (0, memp))"

definition MemoryPool_size_below :: "MemoryPool \<Rightarrow> nat \<Rightarrow> bool" where
  "MemoryPool_size_below memp limitPrc \<longleftrightarrow>
     mp_nextChar memp < mp_capacity memp * limitPrc div 100"

text \<open>
  \<open>realloc\<close> keeps the content and may move the block; the cells gained are
  modelled as zero (nothing reads them before they are written).
\<close>

definition MemoryPool_expand :: "allocator \<Rightarrow> MemoryPool \<Rightarrow> RetStatus \<times> MemoryPool" where
  "MemoryPool_expand heap memp =
     (let newCapacity = 2 * mp_capacity memp;
          extPtr = heap newCapacity
      in if extPtr = 0 then (GEN_FAIL, memp)
         else (SUCCESS,
               memp\<lparr>mp_capacity := newCapacity, mp_memSpace := extPtr,
                     mp_cells := mp_cells memp @ replicate (newCapacity - length (mp_cells memp)) NUL\<rparr>))"

definition pool_char :: "MemoryPool \<Rightarrow> nat \<Rightarrow> char option" where
  "pool_char memp p =
     (if mp_memSpace memp \<le> p then at (mp_cells memp) (p - mp_memSpace memp) else None)"

text \<open>The \<open>n\<close> bytes at an address.\<close>

definition pool_read :: "MemoryPool \<Rightarrow> nat \<Rightarrow> nat \<Rightarrow> string option" where
  "pool_read memp p n =
     (if mp_memSpace memp \<le> p \<and> p - mp_memSpace memp + n \<le> length (mp_cells memp)
      then Some (take n (drop (p - mp_memSpace memp) (mp_cells memp)))
      else None)"

text \<open>The C string at an address: the bytes up to the first terminator in the block.\<close>

definition pool_string :: "MemoryPool \<Rightarrow> nat \<Rightarrow> string option" where
  "pool_string memp p =
     (if mp_memSpace memp \<le> p \<and> NUL \<in> set (drop (p - mp_memSpace memp) (mp_cells memp))
      then Some (c_str (drop (p - mp_memSpace memp) (mp_cells memp)))
      else None)"

definition pool_write :: "MemoryPool \<Rightarrow> nat \<Rightarrow> string \<Rightarrow> MemoryPool option" where
  "pool_write memp p bytes =
     (if mp_memSpace memp \<le> p \<and> p - mp_memSpace memp + length bytes \<le> length (mp_cells memp)
      then Some (memp\<lparr>mp_cells := take (p - mp_memSpace memp) (mp_cells memp) @ bytes @
                         drop (p - mp_memSpace memp + length bytes) (mp_cells memp)\<rparr>)
      else None)"

text \<open>
  \<open>string_copy\<close> into the pool: \<open>Some None\<close> is the return value \<open>false\<close>,
  \<open>Some (Some pool)\<close> is \<open>true\<close> with the pool written.
\<close>

definition string_copy :: "MemoryPool \<Rightarrow> nat \<Rightarrow> string \<Rightarrow> nat \<Rightarrow> MemoryPool option option" where
  "string_copy memp dst src cnt =
     (if dst = 0 \<or> cnt = 0 then Some None
      else map_option Some (pool_write memp dst (strncpy src cnt)))"

section \<open>Word Hash Table (memstructs.c)\<close>

text \<open>
  The mean and median displacement of \<open>HashStats\<close> are floating-point values
  computed on demand for printing; they are left out.
\<close>

record HashStats =
  totalInsertions :: nat
  totalCollisions :: nat

record PrintFormatStats =
  maxLengthWordIndex :: nat
  maxCountWordIndex :: nat

record WordHashTabEntry =
  e_letters :: nat
  e_count :: nat
  e_length :: nat
  e_displacement :: int

record WordHashTable =
  ht_entries :: "WordHashTabEntry list"
  ht_alphOrderArray :: "nat list"
  ht_capacity :: nat
  ht_size :: nat
  ht_stringsPool :: MemoryPool
  ht_hstats :: HashStats
  ht_pfstats :: PrintFormatStats

text \<open>A cell of an array returned by \<open>calloc\<close>.\<close>

definition zero_entry :: WordHashTabEntry where
  "zero_entry = \<lparr>e_letters = 0, e_count = 0, e_length = 0, e_displacement = 0\<rparr>"

definition WordHashTable_init :: "allocator \<Rightarrow> nat \<Rightarrow> WordHashTable option" where
  "WordHashTable_init heap initCapacity =
     (if heap initCapacity = 0 then None
      else if heap initCapacity = 0 then None
      else case MemoryPool_init heap (6 * initCapacity) of
             None \<Rightarrow> None
           | Some memp \<Rightarrow>
              Some \<lparr>ht_entries = replicate initCapacity zero_entry,
                    ht_alphOrderArray = replicate initCapacity 0,
                    ht_capacity = initCapacity, ht_size = 0, ht_stringsPool = memp,
                    ht_hstats = \<lparr>totalInsertions = 0, totalCollisions = 0\<rparr>,
                    ht_pfstats = \<lparr>maxLengthWordIndex = 0, maxCountWordIndex = 0\<rparr>\<rparr>)"

definition WordHashTable_create :: "allocator \<Rightarrow> nat \<Rightarrow> WordHashTable option" where
  "WordHashTable_create heap initCapacity =
     (if heap 1 = 0 then None else WordHashTable_init heap initCapacity)"

text \<open>
  The backward loop of \<open>orderArray_insert\<close>. The argument \<open>k\<close> is \<open>i + 1\<close>: the
  loop looks at cell \<open>k - 1\<close> of the order array and stops at \<open>k = 0\<close>. The result
  is the array and the position \<open>i + 1\<close> the new index goes to.
\<close>

fun orderArray_loop :: "WordHashTable \<Rightarrow> nat \<Rightarrow> nat list \<Rightarrow> nat \<Rightarrow> (nat list \<times> nat) option" where
  "orderArray_loop whtab newWord arr 0 = Some (arr, 0)"
| "orderArray_loop whtab newWord arr (Suc i) =
     do {
       ind \<leftarrow> at arr i;
       entry \<leftarrow> at (ht_entries whtab) ind;
       new \<leftarrow> pool_string (ht_stringsPool whtab) newWord;
       old \<leftarrow> pool_string (ht_stringsPool whtab) (e_letters entry);
       if strcmp new old \<le> 0
       then (if Suc i < length arr
             then orderArray_loop whtab newWord (arr[Suc i := ind]) i
             else None)
       else Some (arr, Suc i)
     }"

definition orderArray_insert :: "WordHashTable \<Rightarrow> nat \<Rightarrow> nat \<Rightarrow> WordHashTable option" where
  "orderArray_insert whtab newWord ind =
     (if ht_size whtab = 0 then
        (if 0 < length (ht_alphOrderArray whtab)
         then Some (whtab\<lparr>ht_alphOrderArray := (ht_alphOrderArray whtab)[0 := ind]\<rparr>)
         else None)
      else
        do {
          (arr, pos) \<leftarrow> orderArray_loop whtab newWord (ht_alphOrderArray whtab) (ht_size whtab);
          if pos < length arr
          then Some (whtab\<lparr>ht_alphOrderArray := arr[pos := ind]\<rparr>)
          else None
        })"

text \<open>
  What one probed slot gives: the routine returns, the loop goes on to the next
  slot, or the access has no defined result.
\<close>

datatype slot_result = Return RetStatus WordHashTable | Next | Fault

text \<open>The character of a word buffer at an index.\<close>

definition buf_char :: "WordBuffer \<Rightarrow> nat \<Rightarrow> char option" where
  "buf_char buf i = at (wb_letters buf) i"

text \<open>
  The pre-check of \<open>WordHashTable_add_word\<close> on an occupied slot: length,
  displacement, first character, last character, evaluated left to right as
  \<open>&&\<close> does.
\<close>

definition entry_matches :: "MemoryPool \<Rightarrow> WordHashTabEntry \<Rightarrow> WordBuffer \<Rightarrow> int \<Rightarrow> bool option" where
  "entry_matches memp curEntry buf displ =
     (if e_length curEntry \<noteq> wb_curPosition buf + 1 then Some False
      else if e_displacement curEntry \<noteq> displ then Some False
      else do {
        a \<leftarrow> pool_char memp (e_letters curEntry);
        b \<leftarrow> buf_char buf 0;
        if a \<noteq> b then Some False
        else do {
          c \<leftarrow> pool_char memp (e_letters curEntry + u32 (int (e_length curEntry) - 2));
          d \<leftarrow> buf_char buf (u32 (int (wb_curPosition buf) - 1));
          Some (c = d)
        }
      })"

text \<open>The branch of an empty slot: the word becomes a new entry.\<close>

definition insert_entry :: "WordHashTable \<Rightarrow> WordBuffer \<Rightarrow> nat \<Rightarrow> nat \<Rightarrow> int \<Rightarrow> slot_result" where
  "insert_entry whtab buf curIndex newDispl displ =
     (let curEntry = ht_entries whtab ! curIndex;
          (letters, memp) = MemoryPool_alloc_block (ht_stringsPool whtab) (wb_curPosition buf + 1)
      in if letters = 0
         then Return DATA_STRUCT_FULL
                (whtab\<lparr>ht_entries := (ht_entries whtab)[curIndex := curEntry\<lparr>e_letters := 0\<rparr>]\<rparr>)
         else
           (let len = wb_curPosition buf + 1 in
            case string_copy memp letters (wb_letters buf) len of
              None \<Rightarrow> Fault
            | Some None \<Rightarrow>
                Return GEN_FAIL
                  (whtab\<lparr>ht_entries := (ht_entries whtab)
                            [curIndex := curEntry\<lparr>e_letters := letters, e_length := len\<rparr>],
                          ht_stringsPool := memp\<rparr>)
            | Some (Some memp') \<Rightarrow>
               (let t1 = whtab\<lparr>ht_entries := (ht_entries whtab)
                            [curIndex := curEntry\<lparr>e_letters := letters, e_length := len,
                                                  e_count := e_count curEntry + 1,
                                                  e_displacement := displ\<rparr>],
                          ht_stringsPool := memp'\<rparr>
                in case orderArray_insert t1 letters curIndex of
                     None \<Rightarrow> Fault
                   | Some t2 \<Rightarrow>
                      (let hs = ht_hstats t2;
                           hs1 = hs\<lparr>totalInsertions := totalInsertions hs + 1\<rparr>;
                           hs2 = (if newDispl > 0
                                  then hs1\<lparr>totalCollisions := totalCollisions hs1 + newDispl\<rparr>
                                  else hs1);
                           t3 = t2\<lparr>ht_hstats := hs2\<rparr>
                       in if ht_size t3 = 0
                          then Return SUCCESS
                                 (t3\<lparr>ht_pfstats := \<lparr>maxLengthWordIndex = curIndex,
                                                      maxCountWordIndex = curIndex\<rparr>,
                                      ht_size := ht_size t3 + 1\<rparr>)
                          else
                            (case at (ht_entries t3) (maxLengthWordIndex (ht_pfstats t3)) of
                               None \<Rightarrow> Fault
                             | Some maxLengthWord \<Rightarrow>
                                Return SUCCESS
                                  ((if len > e_length maxLengthWord
                                    then t3\<lparr>ht_pfstats := (ht_pfstats t3)\<lparr>maxLengthWordIndex := curIndex\<rparr>\<rparr>
                                    else t3)
                                   \<lparr>ht_size := ht_size t3 + 1\<rparr>))))))"

text \<open>The branch of an occupied slot that passes the pre-check: the count goes up.\<close>

definition increment_entry :: "WordHashTable \<Rightarrow> nat \<Rightarrow> slot_result" where
  "increment_entry whtab curIndex =
     (let curEntry = ht_entries whtab ! curIndex;
          curEntry' = curEntry\<lparr>e_count := e_count curEntry + 1\<rparr>;
          t1 = whtab\<lparr>ht_entries := (ht_entries whtab)[curIndex := curEntry']\<rparr>
      in case at (ht_entries t1) (maxCountWordIndex (ht_pfstats t1)) of
           None \<Rightarrow> Fault
         | Some maxCountWord \<Rightarrow>
            Return SUCCESS
              (if e_count curEntry' > e_count maxCountWord
               then t1\<lparr>ht_pfstats := (ht_pfstats t1)\<lparr>maxCountWordIndex := curIndex\<rparr>\<rparr>
               else t1))"

text \<open>
  The body the loop of \<open>WordHashTable_add_word\<close> runs on a slot (it is written
  twice in the source, for \<open>hashIndex + newDispl\<close> and for \<open>hashIndex - newDispl\<close>):
  \<open>displ\<close> is the signed displacement recorded or compared.
\<close>

definition try_slot :: "WordHashTable \<Rightarrow> WordBuffer \<Rightarrow> nat \<Rightarrow> nat \<Rightarrow> int \<Rightarrow> slot_result" where
  "try_slot whtab buf curIndex newDispl displ =
     (case at (ht_entries whtab) curIndex of
        None \<Rightarrow> Fault
      | Some curEntry \<Rightarrow>
         if e_count curEntry = 0 then insert_entry whtab buf curIndex newDispl displ
         else
           (case entry_matches (ht_stringsPool whtab) curEntry buf displ of
              None \<Rightarrow> Fault
            | Some True \<Rightarrow> increment_entry whtab curIndex
            | Some False \<Rightarrow> Next))"

function add_word_loop ::
    "WordHashTable \<Rightarrow> WordBuffer \<Rightarrow> nat \<Rightarrow> nat \<Rightarrow> (RetStatus \<times> WordHashTable) option" where
  "add_word_loop whtab buf hashIndex newDispl =
     (case (if hashIndex + newDispl < ht_capacity whtab
            then try_slot whtab buf (hashIndex + newDispl) newDispl (int newDispl)
            else Next) of
        Fault \<Rightarrow> None
      | Return st t \<Rightarrow> Some (st, t)
      | Next \<Rightarrow>
         (case (if hashIndex \<ge> newDispl \<and> newDispl > 0
                then try_slot whtab buf (hashIndex - newDispl) newDispl (- int newDispl)
                else Next) of
            Fault \<Rightarrow> None
          | Return st t \<Rightarrow> Some (st, t)
          | Next \<Rightarrow>
             (if hashIndex + (newDispl + 1) < ht_capacity whtab \<or> hashIndex \<ge> newDispl + 1
              then add_word_loop whtab buf hashIndex (newDispl + 1)
              else Some (GEN_FAIL, whtab))))"
  by pat_completeness auto
termination
  by (relation "measure (\<lambda>(whtab, buf, hashIndex, newDispl).
        max (ht_capacity whtab - hashIndex) (hashIndex + 1) - newDispl)") auto

text \<open>
  \<open>None\<close> is a run with no defined result: a division by zero, or a read or write
  outside an array or outside the pool's block. The remainder of the hash is taken
  in 64-bit arithmetic, as \<open>uint64_t % size_t\<close> is.
\<close>

definition WordHashTable_add_word :: "WordHashTable \<Rightarrow> WordBuffer \<Rightarrow> (RetStatus \<times> WordHashTable) option" where
  "WordHashTable_add_word whtab buf =
     (if ht_capacity whtab = 0 \<or> length (wb_letters buf) < wb_curPosition buf + 1 then None
      else
        (let hashIndex =
               unat (fnvhash (take (wb_curPosition buf + 1) (wb_letters buf)) mod
                     of_nat (ht_capacity whtab))
         in add_word_loop whtab buf hashIndex 0))"

definition WordHashTable_size_below :: "WordHashTable \<Rightarrow> nat \<Rightarrow> bool" where
  "WordHashTable_size_below whtab limitPrc \<longleftrightarrow>
     ht_size whtab < ht_capacity whtab * limitPrc div 100"

text \<open>
  The loop of \<open>stringPointers_update\<close> over the cells \<open>is\<close> of the order array:
  each entry's string pointer is moved by the distance between the old and the new
  base of the pool.
\<close>

fun stringPointers_loop :: "WordHashTable \<Rightarrow> nat \<Rightarrow> nat list \<Rightarrow> WordHashTable option" where
  "stringPointers_loop whtab prevPoolBasePtr [] = Some whtab"
| "stringPointers_loop whtab prevPoolBasePtr (i # is) =
     do {
       validIndex \<leftarrow> at (ht_alphOrderArray whtab) i;
       oldEntry \<leftarrow> at (ht_entries whtab) validIndex;
       stringPointers_loop
         (whtab\<lparr>ht_entries := (ht_entries whtab)
             [validIndex := oldEntry\<lparr>e_letters :=
                nat (int (e_letters oldEntry) - int prevPoolBasePtr +
                     int (mp_memSpace (ht_stringsPool whtab)))\<rparr>]\<rparr>)
         prevPoolBasePtr is
     }"

definition stringPointers_update :: "WordHashTable \<Rightarrow> nat \<Rightarrow> WordHashTable option" where
  "stringPointers_update whtab prevPoolBasePtr =
     stringPointers_loop whtab prevPoolBasePtr [0..<ht_size whtab]"

definition WordHashTable_MemoryPool_expand ::
    "allocator \<Rightarrow> WordHashTable \<Rightarrow> (RetStatus \<times> WordHashTable) option" where
  "WordHashTable_MemoryPool_expand heap whtab =
     (let prevPoolPtr = mp_memSpace (ht_stringsPool whtab) in
      case MemoryPool_expand heap (ht_stringsPool whtab) of
        (SUCCESS, memp) \<Rightarrow>
          (let t1 = whtab\<lparr>ht_stringsPool := memp\<rparr> in
           if prevPoolPtr \<noteq> mp_memSpace memp
           then map_option (Pair SUCCESS) (stringPointers_update t1 prevPoolPtr)
           else Some (SUCCESS, t1))
      | (_, memp) \<Rightarrow> Some (GEN_FAIL, whtab))"

text \<open>
  The probing loop of \<open>WordHashTable_migrate\<close> in the extended array: only empty
  slots are looked for. \<open>Placed curIndex newDispl displ\<close> is the slot found, with
  the loop counter and the signed displacement recorded.
\<close>

datatype probe_result = Placed nat nat int | Exhausted | BadAccess

function migrate_probe :: "WordHashTabEntry list \<Rightarrow> nat \<Rightarrow> nat \<Rightarrow> nat \<Rightarrow> probe_result" where
  "migrate_probe extEntTab capacity hashIndex newDispl =
     (case (if hashIndex + newDispl < capacity
            then map_option (\<lambda>e. e_count e = 0) (at extEntTab (hashIndex + newDispl))
            else Some False) of
        None \<Rightarrow> BadAccess
      | Some True \<Rightarrow> Placed (hashIndex + newDispl) newDispl (int newDispl)
      | Some False \<Rightarrow>
         (case (if hashIndex \<ge> newDispl \<and> newDispl > 0
                then map_option (\<lambda>e. e_count e = 0) (at extEntTab (hashIndex - newDispl))
                else Some False) of
            None \<Rightarrow> BadAccess
          | Some True \<Rightarrow> Placed (hashIndex - newDispl) newDispl (- int newDispl)
          | Some False \<Rightarrow>
             (if hashIndex + (newDispl + 1) < capacity \<or> hashIndex \<ge> newDispl + 1
              then migrate_probe extEntTab capacity hashIndex (newDispl + 1)
              else Exhausted)))"
  by pat_completeness auto
termination
  by (relation "measure (\<lambda>(extEntTab, capacity, hashIndex, newDispl).
        max (capacity - hashIndex) (hashIndex + 1) - newDispl)") auto

text \<open>
  One iteration of the outer loop of \<open>WordHashTable_migrate\<close>, for cell \<open>i\<close> of the
  order array. An entry for which the probing finds no slot is left out (the
  assertion on it exists only in the debug build).
\<close>

definition migrate_entry ::
    "WordHashTable \<Rightarrow> WordHashTabEntry list \<Rightarrow> nat \<Rightarrow> (WordHashTable \<times> WordHashTabEntry list) option" where
  "migrate_entry whtab extEntTab i =
     do {
       oldIndex \<leftarrow> at (ht_alphOrderArray whtab) i;
       oldEntry \<leftarrow> at (ht_entries whtab) oldIndex;
       bytes \<leftarrow> pool_read (ht_stringsPool whtab) (e_letters oldEntry) (e_length oldEntry);
       if ht_capacity whtab = 0 then None
       else
         (let hashIndex = unat (fnvhash bytes mod of_nat (ht_capacity whtab)) in
          case migrate_probe extEntTab (ht_capacity whtab) hashIndex 0 of
            BadAccess \<Rightarrow> None
          | Exhausted \<Rightarrow> Some (whtab, extEntTab)
          | Placed curIndex newDispl displ \<Rightarrow>
             (let ext' = extEntTab[curIndex := (extEntTab ! curIndex)
                           \<lparr>e_letters := e_letters oldEntry, e_length := e_length oldEntry,
                            e_count := e_count oldEntry, e_displacement := displ\<rparr>];
                  t1 = whtab\<lparr>ht_alphOrderArray := (ht_alphOrderArray whtab)[i := curIndex]\<rparr>;
                  pf = ht_pfstats t1;
                  pf1 = (if oldIndex = maxCountWordIndex pf
                         then pf\<lparr>maxCountWordIndex := curIndex\<rparr> else pf);
                  pf2 = (if oldIndex = maxLengthWordIndex pf1
                         then pf1\<lparr>maxLengthWordIndex := curIndex\<rparr> else pf1);
                  hs = ht_hstats t1;
                  hs1 = hs\<lparr>totalInsertions := totalInsertions hs + 1\<rparr>;
                  hs2 = (if newDispl > 0
                         then hs1\<lparr>totalCollisions := totalCollisions hs1 + newDispl\<rparr>
                         else hs1)
              in Some (t1\<lparr>ht_pfstats := pf2, ht_hstats := hs2\<rparr>, ext')))
     }"

fun migrate_loop ::
    "WordHashTable \<Rightarrow> WordHashTabEntry list \<Rightarrow> nat list \<Rightarrow> (WordHashTable \<times> WordHashTabEntry list) option" where
  "migrate_loop whtab extEntTab [] = Some (whtab, extEntTab)"
| "migrate_loop whtab extEntTab (i # is) =
     do {
       (t, ext) \<leftarrow> migrate_entry whtab extEntTab i;
       migrate_loop t ext is
     }"

definition WordHashTable_migrate ::
    "WordHashTable \<Rightarrow> WordHashTabEntry list \<Rightarrow> (WordHashTable \<times> WordHashTabEntry list) option" where
  "WordHashTable_migrate whtab extEntTab = migrate_loop whtab extEntTab [0..<ht_size whtab]"

definition WordHashTable_expand :: "allocator \<Rightarrow> WordHashTable \<Rightarrow> (RetStatus \<times> WordHashTable) option" where
  "WordHashTable_expand heap whtab =
     (let newCapacity = ht_capacity whtab * 2 in
      if heap newCapacity = 0 then Some (GEN_FAIL, whtab)
      else if heap newCapacity = 0 then Some (GEN_FAIL, whtab)
      else
        (let extEntries = replicate newCapacity zero_entry;
             t1 = whtab\<lparr>ht_capacity := newCapacity,
                        ht_alphOrderArray := ht_alphOrderArray whtab @
                          replicate (newCapacity - length (ht_alphOrderArray whtab)) 0\<rparr>;
             pooled =
               (if \<not> MemoryPool_size_below (ht_stringsPool t1) 80
                then WordHashTable_MemoryPool_expand heap t1
                else Some (SUCCESS, t1))
         in case pooled of
              None \<Rightarrow> None
            | Some (SUCCESS, t2) \<Rightarrow>
               do {
                 (t3, ext) \<leftarrow> WordHashTable_migrate t2 extEntries;
                 Some (SUCCESS, t3\<lparr>ht_entries := ext\<rparr>)
               }
            | Some (_, t2) \<Rightarrow> Some (GEN_FAIL, t2)))"

text \<open>The rows \<open>WordHashTable_count_print\<close> prints: word and count, in the order of the order array.\<close>

fun print_rows :: "WordHashTable \<Rightarrow> nat list \<Rightarrow> (string \<times> nat) list option" where
  "print_rows whtab [] = Some []"
| "print_rows whtab (i # is) =
     do {
       ind \<leftarrow> at (ht_alphOrderArray whtab) i;
       curEntry \<leftarrow> at (ht_entries whtab) ind;
       word \<leftarrow> pool_string (ht_stringsPool whtab) (e_letters curEntry);
       rows \<leftarrow> print_rows whtab is;
       Some ((word, e_count curEntry) # rows)
     }"

definition WordHashTable_count_print :: "WordHashTable \<Rightarrow> (string \<times> nat) list option" where
  "WordHashTable_count_print whtab =
     (if ht_size whtab = 0 then Some []
      else
        do {
          maxLengthWord \<leftarrow> at (ht_entries whtab) (maxLengthWordIndex (ht_pfstats whtab));
          maxCountWord \<leftarrow> at (ht_entries whtab) (maxCountWordIndex (ht_pfstats whtab));
          print_rows whtab [0..<ht_size whtab]
        })"

section \<open>The program (wordcount.c)\<close>

definition wtabInitSize :: "64 word \<Rightarrow> 64 word" where
  "wtabInitSize inputSize =
     (let ceilSize = next_2power inputSize;
          floorSize = ceilSize div 2
      in if inputSize - floorSize \<ge> floorSize div 2 then ceilSize else floorSize)"

text \<open>The three ways the counting loop of \<open>main\<close> leaves with \<open>EXIT_FAILURE\<close>.\<close>

datatype failure = POOL_OUT_OF_MEMORY | INSERT_FAILED | EXPANSION_FAILED

text \<open>
  The inner loop of \<open>main\<close>: the word is added again after each expansion of the
  pool, as long as \<open>WordHashTable_add_word\<close> answers \<open>DATA_STRUCT_FULL\<close>. \<open>None\<close>
  is a run that has no defined result or does not return.
\<close>

partial_function (option) add_word_retry ::
    "allocator \<Rightarrow> WordHashTable \<Rightarrow> WordBuffer \<Rightarrow> (failure + WordHashTable) option" where
  "add_word_retry heap whtab buf =
     (case WordHashTable_add_word whtab buf of
        None \<Rightarrow> None
      | Some (rst, t1) \<Rightarrow>
         (case rst of
            DATA_STRUCT_FULL \<Rightarrow>
              (case WordHashTable_MemoryPool_expand heap t1 of
                 None \<Rightarrow> None
               | Some (est, t2) \<Rightarrow>
                  (case est of
                     SUCCESS \<Rightarrow> add_word_retry heap t2 buf
                   | _ \<Rightarrow> Some (Inl POOL_OUT_OF_MEMORY)))
          | SUCCESS \<Rightarrow> Some (Inr t1)
          | GEN_FAIL \<Rightarrow> Some (Inl INSERT_FAILED)))"

declare add_word_retry.simps [code]

text \<open>One iteration of the outer loop of \<open>main\<close>.\<close>

definition count_word :: "allocator \<Rightarrow> WordHashTable \<Rightarrow> WordBuffer \<Rightarrow> (failure + WordHashTable) option" where
  "count_word heap whtab buf =
     (case add_word_retry heap whtab buf of
        None \<Rightarrow> None
      | Some (Inl f) \<Rightarrow> Some (Inl f)
      | Some (Inr t1) \<Rightarrow>
         (if \<not> WordHashTable_size_below t1 70
          then (case WordHashTable_expand heap t1 of
                  None \<Rightarrow> None
                | Some (SUCCESS, t2) \<Rightarrow> Some (Inr t2)
                | Some (_, t2) \<Rightarrow> Some (Inl EXPANSION_FAILED))
          else Some (Inr t1)))"

fun count_loop :: "allocator \<Rightarrow> WordHashTable \<Rightarrow> WordBuffer list \<Rightarrow> (failure + WordHashTable) option" where
  "count_loop heap whtab [] = Some (Inr whtab)"
| "count_loop heap whtab (buf # bufs) =
     (case count_word heap whtab buf of
        None \<Rightarrow> None
      | Some (Inl f) \<Rightarrow> Some (Inl f)
      | Some (Inr t) \<Rightarrow> count_loop heap t bufs)"

text \<open>
  The table \<open>main\<close> holds when it reaches \<open>WordHashTable_count_print\<close>, for the
  given Token List.
\<close>

definition count_tokens :: "allocator \<Rightarrow> WordBufferVector \<Rightarrow> (failure + WordHashTable) option" where
  "count_tokens heap inputVector =
     (let inputSize = WordBufferVector_get_size inputVector in
      case WordHashTable_create heap (unat (wtabInitSize (of_nat inputSize))) of
        None \<Rightarrow> Some (Inl INSERT_FAILED)
      | Some hashTable \<Rightarrow>
          count_loop heap hashTable (map (WordBufferVector_at inputVector) [0..<inputSize]))"

datatype exit_status = EXIT_SUCCESS | EXIT_FAILURE

text \<open>\<open>main\<close> on an input text: the exit status and the rows printed.\<close>

definition wordcount_main :: "allocator \<Rightarrow> string \<Rightarrow> (exit_status \<times> (string \<times> nat) list) option" where
  "wordcount_main heap inp =
     (case tokenize heap inp of
        None \<Rightarrow> Some (EXIT_FAILURE, [])
      | Some inputVector \<Rightarrow>
         (case count_tokens heap inputVector of
            None \<Rightarrow> None
          | Some (Inl f) \<Rightarrow> Some (EXIT_FAILURE, [])
          | Some (Inr hashTable) \<Rightarrow>
              map_option (Pair EXIT_SUCCESS) (WordHashTable_count_print hashTable)))"

section \<open>Invariants of the tokenizer\<close>

text \<open>
  A token as \<open>WordBufferVector_push\<close> stores it: the characters of a non-empty
  word, then the terminator, in an array of exactly that size.
\<close>

definition good_token :: "WordBuffer \<Rightarrow> bool" where
  "good_token b \<longleftrightarrow>
     (\<exists>w. w \<noteq> [] \<and> NUL \<notin> set w \<and> wb_letters b = w @ [NUL] \<and>
          wb_curPosition b = length w \<and> wb_capacity b = length w + 1)"



section \<open>Invariants of the word hash table\<close>

text \<open>The pool owns a block at a non-null address, as large as its capacity says.\<close>

definition pool_ok :: "MemoryPool \<Rightarrow> bool" where
  "pool_ok memp \<longleftrightarrow>
     0 < mp_memSpace memp \<and> 0 < mp_capacity memp \<and>
     length (mp_cells memp) = mp_capacity memp \<and> mp_nextChar memp \<le> mp_capacity memp"

text \<open>The bytes an entry's string pointer and length designate, and the word in them.\<close>

definition entry_bytes :: "MemoryPool \<Rightarrow> WordHashTabEntry \<Rightarrow> string" where
  "entry_bytes memp e =
     take (e_length e) (drop (e_letters e - mp_memSpace memp) (mp_cells memp))"

definition word_of :: "MemoryPool \<Rightarrow> WordHashTabEntry \<Rightarrow> string" where
  "word_of memp e = butlast (entry_bytes memp e)"

text \<open>
  An entry's text is stored in the pool: its bytes lie in the allocated part of the
  block and are a non-empty word followed by the terminator.
\<close>

definition stored :: "MemoryPool \<Rightarrow> WordHashTabEntry \<Rightarrow> bool" where
  "stored memp e \<longleftrightarrow>
     mp_memSpace memp \<le> e_letters e \<and> 2 \<le> e_length e \<and>
     e_letters e - mp_memSpace memp + e_length e \<le> mp_nextChar memp \<and>
     last (entry_bytes memp e) = NUL \<and> NUL \<notin> set (word_of memp e)"

text \<open>A slot of the entries array holds a word when its count is not zero.\<close>

definition live :: "WordHashTabEntry list \<Rightarrow> nat \<Rightarrow> bool" where
  "live es i \<longleftrightarrow> i < length es \<and> e_count (es ! i) \<noteq> 0"

text \<open>Every live entry is stored; every empty slot has a null string pointer.\<close>

definition entries_stored :: "MemoryPool \<Rightarrow> WordHashTabEntry list \<Rightarrow> bool" where
  "entries_stored memp es \<longleftrightarrow>
     (\<forall>i < length es. if e_count (es ! i) \<noteq> 0 then stored memp (es ! i)
                       else e_letters (es ! i) = 0)"

text \<open>The first \<open>n\<close> cells of the order array list the live slots, each once.\<close>

definition index_ok :: "nat list \<Rightarrow> nat \<Rightarrow> WordHashTabEntry list \<Rightarrow> bool" where
  "index_ok arr n es \<longleftrightarrow>
     n \<le> length arr \<and> distinct (take n arr) \<and> set (take n arr) = {i. live es i}"

text \<open>
  The part of the invariant that does not depend on the capacity field (it also
  holds in the middle of \<open>WordHashTable_expand\<close>).
\<close>

definition store_ok :: "WordHashTable \<Rightarrow> bool" where
  "store_ok t \<longleftrightarrow>
     pool_ok (ht_stringsPool t) \<and>
     entries_stored (ht_stringsPool t) (ht_entries t) \<and>
     index_ok (ht_alphOrderArray t) (ht_size t) (ht_entries t) \<and>
     (ht_size t \<noteq> 0 \<longrightarrow>
        live (ht_entries t) (maxLengthWordIndex (ht_pfstats t)) \<and>
        live (ht_entries t) (maxCountWordIndex (ht_pfstats t)))"

definition table_ok :: "WordHashTable \<Rightarrow> bool" where
  "table_ok t \<longleftrightarrow>
     0 < ht_capacity t \<and> length (ht_entries t) = ht_capacity t \<and>
     length (ht_alphOrderArray t) = ht_capacity t \<and> store_ok t"

text \<open>The words and counts in the order of the order array: what the report prints.\<close>

definition report :: "WordHashTable \<Rightarrow> (string \<times> nat) list" where
  "report t =
     map (\<lambda>i. (word_of (ht_stringsPool t) (ht_entries t ! i), e_count (ht_entries t ! i)))
       (take (ht_size t) (ht_alphOrderArray t))"

text \<open>The report is sorted as \<open>strcmp\<close> orders strings.\<close>

definition alph_sorted :: "WordHashTable \<Rightarrow> bool" where
  "alph_sorted t \<longleftrightarrow> sorted_wrt (\<lambda>a b. strcmp a b \<le> 0) (map fst (report t))"

text \<open>Writing a fresh block at the allocation cursor leaves every stored entry as it was.\<close>

definition written :: "MemoryPool \<Rightarrow> string \<Rightarrow> MemoryPool" where
  "written memp bytes =
     memp\<lparr>mp_nextChar := mp_nextChar memp + length bytes,
          mp_cells := take (mp_nextChar memp) (mp_cells memp) @ bytes @
                      drop (mp_nextChar memp + length bytes) (mp_cells memp)\<rparr>"

text \<open>Growing the pool and moving every string pointer with the block.\<close>

definition rebased :: "nat \<Rightarrow> nat \<Rightarrow> WordHashTabEntry \<Rightarrow> WordHashTabEntry" where
  "rebased prev new e = e\<lparr>e_letters := nat (int (e_letters e) - int prev + int new)\<rparr>"

text \<open>
  The position \<open>orderArray_insert\<close> gives a new word among the words \<open>us\<close> already
  in order: the scan goes backwards from cell \<open>k - 1\<close> while the new word is not
  greater.
\<close>

primrec insert_pos :: "string \<Rightarrow> string list \<Rightarrow> nat \<Rightarrow> nat" where
  "insert_pos w us 0 = 0"
| "insert_pos w us (Suc i) = (if strcmp w (us ! i) \<le> 0 then insert_pos w us i else Suc i)"

text \<open>
  What a successful \<open>WordHashTable_add_word\<close> does to the table, in its two
  branches: the count of the entry at slot \<open>i\<close> goes up by one, or the word becomes
  a new entry at the empty slot \<open>i\<close>.
\<close>

definition incremented :: "WordHashTable \<Rightarrow> nat \<Rightarrow> WordHashTable \<Rightarrow> bool" where
  "incremented t i t' \<longleftrightarrow>
     live (ht_entries t) i \<and>
     ht_entries t' = (ht_entries t)[i := (ht_entries t ! i)\<lparr>e_count := Suc (e_count (ht_entries t ! i))\<rparr>] \<and>
     ht_alphOrderArray t' = ht_alphOrderArray t \<and> ht_capacity t' = ht_capacity t \<and>
     ht_size t' = ht_size t \<and> ht_stringsPool t' = ht_stringsPool t \<and>
     ht_hstats t' = ht_hstats t \<and>
     ht_pfstats t' =
       (if e_count (ht_entries t' ! maxCountWordIndex (ht_pfstats t)) < e_count (ht_entries t' ! i)
        then (ht_pfstats t)\<lparr>maxCountWordIndex := i\<rparr> else ht_pfstats t)"

definition inserted :: "WordHashTable \<Rightarrow> WordBuffer \<Rightarrow> nat \<Rightarrow> int \<Rightarrow> WordHashTable \<Rightarrow> bool" where
  "inserted t buf i displ t' \<longleftrightarrow>
     i < length (ht_entries t) \<and> e_count (ht_entries t ! i) = 0 \<and>
     mp_nextChar (ht_stringsPool t) + length (wb_letters buf) < mp_capacity (ht_stringsPool t) \<and>
     ht_entries t' = (ht_entries t)[i := (ht_entries t ! i)
        \<lparr>e_letters := mp_memSpace (ht_stringsPool t) + mp_nextChar (ht_stringsPool t),
         e_length := Suc (wb_curPosition buf), e_count := Suc 0, e_displacement := displ\<rparr>] \<and>
     ht_stringsPool t' = written (ht_stringsPool t) (wb_letters buf) \<and>
     ht_capacity t' = ht_capacity t \<and> ht_size t' = Suc (ht_size t) \<and>
     length (ht_alphOrderArray t') = length (ht_alphOrderArray t) \<and>
     (let A = take (ht_size t) (ht_alphOrderArray t);
          pos = insert_pos (c_str (wb_letters buf))
                  (map (\<lambda>k. word_of (ht_stringsPool t) (ht_entries t ! k)) A) (ht_size t)
      in take (Suc (ht_size t)) (ht_alphOrderArray t') = take pos A @ i # drop pos A) \<and>
     ht_pfstats t' =
       (if ht_size t = 0 then \<lparr>maxLengthWordIndex = i, maxCountWordIndex = i\<rparr>
        else if e_length (ht_entries t ! maxLengthWordIndex (ht_pfstats t)) < Suc (wb_curPosition buf)
        then (ht_pfstats t)\<lparr>maxLengthWordIndex := i\<rparr> else ht_pfstats t)"

section \<open>The probing order\<close>

text \<open>
  The slots the probing loops visit for the displacement counter \<open>d\<close>, from the
  ideal slot \<open>h\<close> in a table of \<open>cap\<close> slots: \<open>h + d\<close> when it is inside the table,
  then \<open>h - d\<close> when \<open>d\<close> is positive and not above \<open>h\<close>. Each slot comes with the
  counter and the signed displacement.
\<close>

definition probe_at :: "nat \<Rightarrow> nat \<Rightarrow> nat \<Rightarrow> (nat \<times> nat \<times> int) list" where
  "probe_at cap h d =
     (if h + d < cap then [(h + d, d, int d)] else []) @
     (if d \<le> h \<and> 0 < d then [(h - d, d, - int d)] else [])"

text \<open>The whole sequence from counter \<open>d\<close> on: the loops stop when \<open>h + d\<close> and \<open>h - d\<close> are both outside.\<close>

definition probes_from :: "nat \<Rightarrow> nat \<Rightarrow> nat \<Rightarrow> (nat \<times> nat \<times> int) list" where
  "probes_from cap h d = concat (map (probe_at cap h) [d..<max (cap - h) (h + 1)])"

text \<open>Running the body of the loop of \<open>WordHashTable_add_word\<close> along a list of slots.\<close>

fun scan :: "WordHashTable \<Rightarrow> WordBuffer \<Rightarrow> (nat \<times> nat \<times> int) list \<Rightarrow> (RetStatus \<times> WordHashTable) option" where
  "scan t buf [] = Some (GEN_FAIL, t)"
| "scan t buf ((i, nd, displ) # ps) =
     (case try_slot t buf i nd displ of
        Fault \<Rightarrow> None
      | Return st t' \<Rightarrow> Some (st, t')
      | Next \<Rightarrow> scan t buf ps)"

text \<open>The ideal slot of a word (given with its terminator) in a table of \<open>cap\<close> slots.\<close>

definition hash_index :: "nat \<Rightarrow> string \<Rightarrow> nat" where
  "hash_index cap bytes = unat (fnvhash bytes mod of_nat cap)"

text \<open>The sum of the counts the report prints.\<close>

definition total_count :: "WordHashTable \<Rightarrow> nat" where
  "total_count t = sum_list (map snd (report t))"

text \<open>
  What a successful \<open>WordHashTable_MemoryPool_expand\<close> does: the pool has twice
  the capacity at the address \<open>b\<close> the allocator gave, and the string pointer of
  every live entry has moved with it.
\<close>

definition pool_grown :: "nat \<Rightarrow> WordHashTable \<Rightarrow> WordHashTable \<Rightarrow> bool" where
  "pool_grown b t t' \<longleftrightarrow>
     ht_alphOrderArray t' = ht_alphOrderArray t \<and> ht_capacity t' = ht_capacity t \<and>
     ht_size t' = ht_size t \<and> ht_hstats t' = ht_hstats t \<and> ht_pfstats t' = ht_pfstats t \<and>
     ht_stringsPool t' = (ht_stringsPool t)
        \<lparr>mp_capacity := 2 * mp_capacity (ht_stringsPool t), mp_memSpace := b,
         mp_cells := mp_cells (ht_stringsPool t) @
                     replicate (mp_capacity (ht_stringsPool t)) NUL\<rparr> \<and>
     length (ht_entries t') = length (ht_entries t) \<and>
     (\<forall>k < length (ht_entries t). ht_entries t' ! k =
        (if live (ht_entries t) k
         then rebased (mp_memSpace (ht_stringsPool t)) b (ht_entries t ! k)
         else ht_entries t ! k))"

text \<open>
  The report after a word that no entry holds was added: the word with count one,
  at the position \<open>orderArray_insert\<close> finds for it.
\<close>

definition report_insert :: "string \<Rightarrow> (string \<times> nat) list \<Rightarrow> (string \<times> nat) list" where
  "report_insert w rep =
     (let pos = insert_pos w (map fst rep) (length rep)
      in take pos rep @ (w, 1) # drop pos rep)"

section \<open>Example inputs\<close>

text \<open>The token of a word, as \<open>WordBufferVector_push\<close> stores it.\<close>

definition buf_of :: "string \<Rightarrow> WordBuffer" where
  "buf_of w = \<lparr>wb_letters = w @ [NUL], wb_curPosition = length w, wb_capacity = length w + 1\<rparr>"

text \<open>An allocator that answers each size with another address, so that a grown block moves.\<close>

definition moving :: allocator where
  "moving n = 4096 + n"

text \<open>The table of one slot after the word \<open>a\<close> was added to it.\<close>

definition ex_table_a :: WordHashTable where
  "ex_table_a =
     \<lparr>ht_entries = [\<lparr>e_letters = 4096, e_count = 1, e_length = 2, e_displacement = 0\<rparr>],
      ht_alphOrderArray = [0], ht_capacity = 1, ht_size = 1,
      ht_stringsPool = \<lparr>mp_memSpace = 4096, mp_cells = ''a'' @ replicate 5 NUL,
                         mp_nextChar = 2, mp_capacity = 6\<rparr>,
      ht_hstats = \<lparr>totalInsertions = 1, totalCollisions = 0\<rparr>,
      ht_pfstats = \<lparr>maxLengthWordIndex = 0, maxCountWordIndex = 0\<rparr>\<rparr>"

text \<open>The empty table of two slots, and the same table after its pool has grown and moved.\<close>

definition ex_table_empty :: WordHashTable where
  "ex_table_empty =
     \<lparr>ht_entries = [zero_entry, zero_entry],
      ht_alphOrderArray = [0, 0], ht_capacity = 2, ht_size = 0,
      ht_stringsPool = \<lparr>mp_memSpace = 4096, mp_cells = replicate 12 NUL,
                         mp_nextChar = 0, mp_capacity = 12\<rparr>,
      ht_hstats = \<lparr>totalInsertions = 0, totalCollisions = 0\<rparr>,
      ht_pfstats = \<lparr>maxLengthWordIndex = 0, maxCountWordIndex = 0\<rparr>\<rparr>"

text \<open>An allocator that refuses every request of \<open>m\<close> bytes or more.\<close>

definition refusing :: "nat \<Rightarrow> allocator" where
  "refusing m n = (if m \<le> n then 0 else 4096 + n)"

text \<open>The table of two slots after the word \<open>a\<close> was added to it: slot 0 is live, slot 1 empty.\<close>

definition ex_table_two :: WordHashTable where
  "ex_table_two =
     \<lparr>ht_entries = [\<lparr>e_letters = 4096, e_count = 1, e_length = 2, e_displacement = 0\<rparr>,
                     zero_entry],
      ht_alphOrderArray = [0, 0], ht_capacity = 2, ht_size = 1,
      ht_stringsPool = \<lparr>mp_memSpace = 4096, mp_cells = ''a'' @ replicate 11 NUL,
                         mp_nextChar = 2, mp_capacity = 12\<rparr>,
      ht_hstats = \<lparr>totalInsertions = 1, totalCollisions = 0\<rparr>,
      ht_pfstats = \<lparr>maxLengthWordIndex = 0, maxCountWordIndex = 0\<rparr>\<rparr>"

text \<open>
  The table of four slots after the words \<open>b\<close>, \<open>b\<close>, \<open>ag\<close> were added: \<open>b\<close> sits in
  slot 3 with count 2, \<open>ag\<close> in slot 2; the longest word is at slot 2, the most
  frequent at slot 3.
\<close>

definition ex_table_bbag :: WordHashTable where
  "ex_table_bbag =
     \<lparr>ht_entries = [zero_entry, zero_entry,
                     \<lparr>e_letters = 4098, e_count = 1, e_length = 3, e_displacement = - 1\<rparr>,
                     \<lparr>e_letters = 4096, e_count = 2, e_length = 2, e_displacement = 0\<rparr>],
      ht_alphOrderArray = [2, 3, 0, 0], ht_capacity = 4, ht_size = 2,
      ht_stringsPool = \<lparr>mp_memSpace = 4096, mp_cells = ''b'' @ [NUL] @ ''ag'' @ replicate 20 NUL,
                         mp_nextChar = 5, mp_capacity = 24\<rparr>,
      ht_hstats = \<lparr>totalInsertions = 2, totalCollisions = 1\<rparr>,
      ht_pfstats = \<lparr>maxLengthWordIndex = 2, maxCountWordIndex = 3\<rparr>\<rparr>"

text \<open>The fields of a table that the statistics \<open>pfstats\<close> speak about.\<close>

definition stats_view :: "WordHashTable \<Rightarrow> nat \<times> nat \<times> nat list \<times> nat list" where
  "stats_view t =
     (maxLengthWordIndex (ht_pfstats t), maxCountWordIndex (ht_pfstats t),
      map e_length (ht_entries t), map e_count (ht_entries t))"

section \<open>Invariants of the probing\<close>

text \<open>
  The entry at slot \<open>s\<close> sits where the probing put it: its displacement is the
  distance from the ideal slot of its word, and every slot the probing visits
  before \<open>s\<close> is occupied.
\<close>

definition slot_ok :: "MemoryPool \<Rightarrow> nat \<Rightarrow> WordHashTabEntry list \<Rightarrow> nat \<Rightarrow> bool" where
  "slot_ok memp cap es s \<longleftrightarrow>
     (let h = hash_index cap (word_of memp (es ! s) @ [NUL])
      in int s = int h + e_displacement (es ! s) \<and>
         (\<forall>j \<in> fst ` set (takeWhile (\<lambda>p. fst p \<noteq> s) (probes_from cap h 0)). live es j))"

definition probing_ok :: "WordHashTable \<Rightarrow> bool" where
  "probing_ok t \<longleftrightarrow>
     (\<forall>s. live (ht_entries t) s \<longrightarrow>
          slot_ok (ht_stringsPool t) (ht_capacity t) (ht_entries t) s)"

text \<open>
  The state of \<open>WordHashTable_migrate\<close> after \<open>k\<close> cells of the order array:
  \<open>t0\<close> is the table at the start (capacity already doubled, entries still the old
  array), \<open>t\<close> the table now, \<open>ext\<close> the extended array.
\<close>

definition migrating :: "WordHashTable \<Rightarrow> nat \<Rightarrow> WordHashTable \<Rightarrow> WordHashTabEntry list \<Rightarrow> bool" where
  "migrating t0 k t ext \<longleftrightarrow>
     ht_entries t = ht_entries t0 \<and> ht_stringsPool t = ht_stringsPool t0 \<and>
     ht_capacity t = ht_capacity t0 \<and> ht_size t = ht_size t0 \<and>
     length (ht_alphOrderArray t) = length (ht_alphOrderArray t0) \<and>
     length ext = ht_capacity t0 \<and>
     drop k (ht_alphOrderArray t) = drop k (ht_alphOrderArray t0) \<and>
     distinct (take k (ht_alphOrderArray t)) \<and>
     set (take k (ht_alphOrderArray t)) = {s. live ext s} \<and>
     (\<forall>j<k. e_letters (ext ! (ht_alphOrderArray t ! j)) =
               e_letters (ht_entries t0 ! (ht_alphOrderArray t0 ! j)) \<and>
             e_length (ext ! (ht_alphOrderArray t ! j)) =
               e_length (ht_entries t0 ! (ht_alphOrderArray t0 ! j)) \<and>
             e_count (ext ! (ht_alphOrderArray t ! j)) =
               e_count (ht_entries t0 ! (ht_alphOrderArray t0 ! j))) \<and>
     (\<forall>s < length ext. \<not> live ext s \<longrightarrow> ext ! s = zero_entry) \<and>
     (\<forall>s. live ext s \<longrightarrow> slot_ok (ht_stringsPool t0) (ht_capacity t0) ext s) \<and>
     (ht_size t0 \<noteq> 0 \<longrightarrow>
        maxLengthWordIndex (ht_pfstats t) \<in>
          set (take k (ht_alphOrderArray t)) \<union>
          set (drop k (take (ht_size t0) (ht_alphOrderArray t0))) \<and>
        maxCountWordIndex (ht_pfstats t) \<in>
          set (take k (ht_alphOrderArray t)) \<union>
          set (drop k (take (ht_size t0) (ht_alphOrderArray t0))))"


section \<open>The tokenizer keeps its invariants\<close>







lemma push_char_status:
  "WordBuffer_push_char heap b c = (st, b') \<Longrightarrow> st = SUCCESS \<or> (st = GEN_FAIL \<and> b' = b)"
  by (auto simp: WordBuffer_push_char_def Let_def split: if_splits option.splits)















lemma good_token_bounds:
  assumes "good_token b"
  shows "1 \<le> wb_curPosition b"
    and "c_str (wb_letters b) = take (wb_curPosition b) (wb_letters b)"
    and "length (c_str (wb_letters b)) = wb_curPosition b"
    and "buf_char b 0 \<noteq> None"
    and "buf_char b (u32 (int (wb_curPosition b) - 1)) \<noteq> None"
proof -
  from assms obtain w where w: "w \<noteq> []" "NUL \<notin> set w" "wb_letters b = w @ [NUL]"
    "wb_curPosition b = length w" "wb_capacity b = length w + 1"
    by (auto simp: good_token_def)
  show "1 \<le> wb_curPosition b" using w by (cases w) auto
  have tw: "takeWhile (\<lambda>c. c \<noteq> NUL) (w @ [NUL]) = w"
    using w(2) by (induction w) auto
  show "c_str (wb_letters b) = take (wb_curPosition b) (wb_letters b)"
    using w tw by (simp add: c_str_def)
  show "length (c_str (wb_letters b)) = wb_curPosition b"
    using w tw by (simp add: c_str_def)
  show "buf_char b 0 \<noteq> None" using w by (simp add: buf_char_def at_def)
  have "int (length w) - 1 \<ge> 0" using w(1) by (cases w) auto
  then have "(int (length w) - 1) mod 2 ^ 32 \<le> int (length w) - 1"
    by (rule zmod_le_nonneg_dividend)
  then have "u32 (int (length w) - 1) < length w + 1"
    by (simp add: u32_def)
  then show "buf_char b (u32 (int (wb_curPosition b) - 1)) \<noteq> None"
    using w by (simp add: buf_char_def at_def)
qed

lemma non_word_chars_loop:
  assumes "\<forall>c \<in> set inp. get_char_type c = IN_WORD_SYMBOL \<or> get_char_type c = OTHER_SYMBOL"
  shows "get_input_loop heap (BETWEEN_WORDS, wbuf, vec) inp = (SUCCESS, (BETWEEN_WORDS, wbuf, vec))"
  using assms by (induction inp) (auto simp: get_input_char_def)

lemma non_word_chars_no_tokens:
  assumes "\<forall>c \<in> set inp. get_char_type c = IN_WORD_SYMBOL \<or> get_char_type c = OTHER_SYMBOL"
  shows "map_option vec_words (tokenize plenty inp) = Some []"
  using non_word_chars_loop [OF assms, of plenty]
  by (simp add: tokenize_def get_input_def get_input_eof_def WordBufferVector_create_def
      WordBuffer_create_def WordBuffer_init_def plenty_def vec_words_def
      INITIAL_WORD_BUFFER_LENGTH_def INITIAL_WORD_VECTOR_LENGTH_def)


section \<open>Reading stored entries\<close>

lemma entry_bytes_length:
  assumes "pool_ok memp" "stored memp e"
  shows "length (entry_bytes memp e) = e_length e"
  using assms by (auto simp: pool_ok_def stored_def entry_bytes_def)

lemma entry_bytes_word:
  assumes "pool_ok memp" "stored memp e"
  shows "entry_bytes memp e = word_of memp e @ [NUL]"
proof -
  have "entry_bytes memp e \<noteq> []"
    using entry_bytes_length [OF assms] assms(2) by (auto simp: stored_def)
  then have "entry_bytes memp e = butlast (entry_bytes memp e) @ [last (entry_bytes memp e)]"
    by simp
  then show ?thesis using assms(2) by (simp add: word_of_def stored_def)
qed

lemma word_of_length:
  assumes "pool_ok memp" "stored memp e"
  shows "length (word_of memp e) + 1 = e_length e"
  using entry_bytes_length [OF assms] assms(2) by (simp add: word_of_def stored_def)

lemma word_of_nonempty:
  assumes "pool_ok memp" "stored memp e"
  shows "word_of memp e \<noteq> []"
  using word_of_length [OF assms] assms(2) by (auto simp: stored_def)

lemma c_str_append_NUL:
  assumes "NUL \<notin> set w"
  shows "c_str (w @ NUL # rest) = w"
  using assms by (induction w) (auto simp: c_str_def)

lemma drop_split_entry:
  assumes "pool_ok memp" "stored memp e"
  shows "drop (e_letters e - mp_memSpace memp) (mp_cells memp) =
         word_of memp e @ NUL #
           drop (e_letters e - mp_memSpace memp + e_length e) (mp_cells memp)"
proof -
  let ?d = "drop (e_letters e - mp_memSpace memp) (mp_cells memp)"
  have "?d = take (e_length e) ?d @ drop (e_length e) ?d"
    by (rule append_take_drop_id [symmetric])
  also have "take (e_length e) ?d = word_of memp e @ [NUL]"
    using entry_bytes_word [OF assms] by (simp add: entry_bytes_def)
  finally show ?thesis by (simp add: add.commute)
qed

lemma pool_string_stored:
  assumes "pool_ok memp" "stored memp e"
  shows "pool_string memp (e_letters e) = Some (word_of memp e)"
proof -
  have "NUL \<notin> set (word_of memp e)" using assms(2) by (simp add: stored_def)
  then show ?thesis
    using drop_split_entry [OF assms] assms(2)
    by (simp add: pool_string_def stored_def c_str_append_NUL)
qed

lemma pool_read_stored:
  assumes "pool_ok memp" "stored memp e"
  shows "pool_read memp (e_letters e) (e_length e) = Some (word_of memp e @ [NUL])"
  using assms entry_bytes_word [OF assms]
  by (auto simp: pool_read_def stored_def pool_ok_def entry_bytes_def)

lemma pool_char_stored:
  assumes "pool_ok memp" "stored memp e" "k < e_length e"
  shows "pool_char memp (e_letters e + k) = Some ((word_of memp e @ [NUL]) ! k)"
proof -
  have b: "e_letters e - mp_memSpace memp + k < length (mp_cells memp)"
    using assms by (auto simp: stored_def pool_ok_def)
  have "(word_of memp e @ [NUL]) ! k = entry_bytes memp e ! k"
    using entry_bytes_word [OF assms(1,2)] by simp
  also have "\<dots> = mp_cells memp ! (e_letters e - mp_memSpace memp + k)"
    using assms(3) b by (simp add: entry_bytes_def)
  finally show ?thesis
    using assms(2) b by (simp add: pool_char_def at_def stored_def)
qed

section \<open>Writing to the pool and growing it\<close>

lemma strncpy_good_token:
  assumes "good_token buf"
  shows "strncpy (wb_letters buf) (wb_curPosition buf + 1) = wb_letters buf"
    and "c_str (wb_letters buf) @ [NUL] = wb_letters buf"
    and "take (wb_curPosition buf + 1) (wb_letters buf) = wb_letters buf"
    and "length (wb_letters buf) = wb_curPosition buf + 1"
    and "c_str (wb_letters buf) \<noteq> []"
    and "NUL \<notin> set (c_str (wb_letters buf))"
proof -
  from assms obtain w where w: "w \<noteq> []" "NUL \<notin> set w" "wb_letters buf = w @ [NUL]"
    "wb_curPosition buf = length w"
    by (auto simp: good_token_def)
  have tw: "takeWhile (\<lambda>c. c \<noteq> NUL) (w @ [NUL]) = w"
    using w(2) by (induction w) auto
  show "strncpy (wb_letters buf) (wb_curPosition buf + 1) = wb_letters buf"
    using w tw by (simp add: strncpy_def)
  show "c_str (wb_letters buf) @ [NUL] = wb_letters buf"
    using w tw by (simp add: c_str_def)
  show "take (wb_curPosition buf + 1) (wb_letters buf) = wb_letters buf"
    using w by simp
  show "length (wb_letters buf) = wb_curPosition buf + 1" using w by simp
  show "c_str (wb_letters buf) \<noteq> []" using w tw by (simp add: c_str_def)
  show "NUL \<notin> set (c_str (wb_letters buf))" using w tw by (simp add: c_str_def)
qed

lemma written_pool_ok:
  assumes "pool_ok memp" "mp_nextChar memp + length bytes < mp_capacity memp"
  shows "pool_ok (written memp bytes)"
  using assms by (auto simp: pool_ok_def written_def)

lemma written_entry_bytes:
  assumes "pool_ok memp" "mp_nextChar memp + length bytes < mp_capacity memp" "stored memp e"
  shows "entry_bytes (written memp bytes) e = entry_bytes memp e"
proof -
  let ?off = "e_letters e - mp_memSpace memp"
  have le: "?off + e_length e \<le> mp_nextChar memp"
    using assms(3) unfolding stored_def by blast
  have len: "mp_nextChar memp \<le> length (mp_cells memp)"
    using assms(1) by (simp add: pool_ok_def)
  have "take (e_length e) (drop ?off (take (mp_nextChar memp) (mp_cells memp) @ bytes @
          drop (mp_nextChar memp + length bytes) (mp_cells memp))) =
        take (e_length e) (drop ?off (take (mp_nextChar memp) (mp_cells memp)))"
    using le len by simp
  also have "\<dots> = take (e_length e) (drop ?off (mp_cells memp))"
    using le len by (simp add: drop_take min_def)
  finally show ?thesis by (simp add: entry_bytes_def written_def)
qed

lemma written_stored:
  assumes "pool_ok memp" "mp_nextChar memp + length bytes < mp_capacity memp" "stored memp e"
  shows "stored (written memp bytes) e" and "word_of (written memp bytes) e = word_of memp e"
proof -
  note eb = written_entry_bytes [OF assms]
  show "word_of (written memp bytes) e = word_of memp e" by (simp add: word_of_def eb)
  then show "stored (written memp bytes) e"
    using assms(3) eb by (auto simp: stored_def written_def)
qed

lemma written_new_entry:
  assumes "pool_ok memp" "mp_nextChar memp + length w + 1 < mp_capacity memp"
    and "w \<noteq> []" "NUL \<notin> set w"
    and "e_letters e = mp_memSpace memp + mp_nextChar memp" "e_length e = length w + 1"
  shows "stored (written memp (w @ [NUL])) e" and "word_of (written memp (w @ [NUL])) e = w"
proof -
  have len: "mp_nextChar memp \<le> length (mp_cells memp)"
    using assms(1) by (simp add: pool_ok_def)
  have eb: "entry_bytes (written memp (w @ [NUL])) e = w @ [NUL]"
    using assms(5,6) len by (simp add: entry_bytes_def written_def)
  show w: "word_of (written memp (w @ [NUL])) e = w" by (simp add: word_of_def eb)
  show "stored (written memp (w @ [NUL])) e"
    using assms(3,4,5,6) eb w by (cases w) (auto simp: stored_def written_def)
qed

lemma alloc_block_success:
  assumes "MemoryPool_alloc_block memp n = (p, memp')" "p \<noteq> 0"
  shows "mp_nextChar memp + n < mp_capacity memp" "p = mp_memSpace memp + mp_nextChar memp"
    "memp' = memp\<lparr>mp_nextChar := mp_nextChar memp + n\<rparr>"
  using assms by (auto simp: MemoryPool_alloc_block_def split: if_splits)

lemma alloc_block_full:
  assumes "MemoryPool_alloc_block memp n = (0, memp')" "pool_ok memp"
  shows "\<not> mp_nextChar memp + n < mp_capacity memp" "memp' = memp"
  using assms by (auto simp: MemoryPool_alloc_block_def pool_ok_def split: if_splits)

lemma string_copy_written:
  assumes "pool_ok memp" "mp_nextChar memp + length bytes < mp_capacity memp" "bytes \<noteq> []"
    and "strncpy src (length bytes) = bytes"
  shows "string_copy (memp\<lparr>mp_nextChar := mp_nextChar memp + length bytes\<rparr>)
           (mp_memSpace memp + mp_nextChar memp) src (length bytes) =
         Some (Some (written memp bytes))"
  using assms
  by (auto simp: string_copy_def pool_write_def pool_ok_def written_def)

lemma pool_expand_cases:
  assumes "MemoryPool_expand heap memp = (st, memp')" "pool_ok memp"
  shows "(st = GEN_FAIL \<and> memp' = memp \<and> heap (2 * mp_capacity memp) = 0) \<or>
         (st = SUCCESS \<and> heap (2 * mp_capacity memp) \<noteq> 0 \<and>
          memp' = memp\<lparr>mp_capacity := 2 * mp_capacity memp,
                       mp_memSpace := heap (2 * mp_capacity memp),
                       mp_cells := mp_cells memp @ replicate (mp_capacity memp) NUL\<rparr>)"
  using assms by (auto simp: MemoryPool_expand_def Let_def pool_ok_def split: if_splits)

lemma expanded_pool_ok:
  assumes "pool_ok memp" "b \<noteq> 0"
  shows "pool_ok (memp\<lparr>mp_capacity := 2 * mp_capacity memp, mp_memSpace := b,
                       mp_cells := mp_cells memp @ replicate (mp_capacity memp) NUL\<rparr>)"
  using assms by (auto simp: pool_ok_def)

lemma expanded_stored:
  fixes b :: nat
  assumes "pool_ok memp" "stored memp e"
  defines "memp' \<equiv> memp\<lparr>mp_capacity := 2 * mp_capacity memp, mp_memSpace := b,
                       mp_cells := mp_cells memp @ replicate (mp_capacity memp) NUL\<rparr>"
  shows "stored memp' (rebased (mp_memSpace memp) b e)"
    and "word_of memp' (rebased (mp_memSpace memp) b e) = word_of memp e"
proof -
  let ?e = "rebased (mp_memSpace memp) b e"
  have ge: "mp_memSpace memp \<le> e_letters e" using assms(2) by (simp add: stored_def)
  then have off: "e_letters ?e - b = e_letters e - mp_memSpace memp" and ge': "b \<le> e_letters ?e"
    by (auto simp: rebased_def)
  have le: "e_letters e - mp_memSpace memp + e_length e \<le> length (mp_cells memp)"
    using assms(1,2) by (auto simp: stored_def pool_ok_def)
  have eb: "entry_bytes memp' ?e = entry_bytes memp e"
    using le off by (simp add: entry_bytes_def memp'_def rebased_def)
  show w: "word_of memp' ?e = word_of memp e" by (simp add: word_of_def eb)
  show "stored memp' ?e"
    using assms(2) eb w off ge' by (auto simp: stored_def memp'_def rebased_def)
qed

lemma same_base_stored:
  assumes "pool_ok memp" "stored memp e"
  defines "memp' \<equiv> memp\<lparr>mp_capacity := 2 * mp_capacity memp, mp_memSpace := mp_memSpace memp,
                       mp_cells := mp_cells memp @ replicate (mp_capacity memp) NUL\<rparr>"
  shows "stored memp' e" and "word_of memp' e = word_of memp e"
proof -
  have "rebased (mp_memSpace memp) (mp_memSpace memp) e = e"
    by (simp add: rebased_def)
  then show "stored memp' e" and "word_of memp' e = word_of memp e"
    using expanded_stored [OF assms(1,2), of "mp_memSpace memp"] by (simp_all add: memp'_def)
qed

section \<open>The order array\<close>

lemma of_char_eq_iff_nat: "(of_char a :: nat) = of_char b \<longleftrightarrow> a = b"
  by (metis char_of_char)

lemma strcmp_refl: "strcmp a a = 0"
  by (induction a) auto

lemma strcmp_total:
  assumes "NUL \<notin> set a" "NUL \<notin> set b" "\<not> strcmp a b \<le> 0"
  shows "strcmp b a \<le> 0"
  using assms
proof (induction a b rule: strcmp.induct)
  case (4 a as b bs)
  then show ?case by (cases "a = b") auto
qed auto

lemma of_char_pos: "c \<noteq> NUL \<Longrightarrow> 0 < int (of_char c)"
proof -
  assume "c \<noteq> NUL"
  then have "(of_char c :: nat) \<noteq> of_char NUL" by (simp add: of_char_eq_iff_nat)
  then show ?thesis by (simp add: NUL_def)
qed

lemma strcmp_trans:
  assumes "NUL \<notin> set a" "NUL \<notin> set b" "NUL \<notin> set c"
    and "strcmp a b \<le> 0" "strcmp b c \<le> 0"
  shows "strcmp a c \<le> 0"
  using assms
proof (induction a b arbitrary: c rule: strcmp.induct)
  case 1
  then show ?case by (cases c) auto
next
  case (2 b bs)
  then show ?case by (cases c) auto
next
  case (3 a as)
  then show ?case using of_char_pos [of a] by auto
next
  case (4 a as b bs)
  show ?case
  proof (cases c)
    case Nil
    then show ?thesis using 4 of_char_pos [of b] by (auto split: if_splits)
  next
    case (Cons x xs)
    then show ?thesis using 4 by (auto simp: of_char_eq_iff_nat split: if_splits)
  qed
qed

lemma insert_pos_le: "insert_pos w us k \<le> k"
  by (induction k) auto

lemma insert_pos_after:
  "insert_pos w us k \<le> j \<Longrightarrow> j < k \<Longrightarrow> strcmp w (us ! j) \<le> 0"
proof (induction k)
  case 0
  then show ?case by simp
next
  case (Suc k)
  then show ?case
    by (cases "j = k") (auto split: if_splits)
qed

lemma insert_pos_before:
  "0 < insert_pos w us k \<Longrightarrow> \<not> strcmp w (us ! (insert_pos w us k - 1)) \<le> 0"
  by (induction k) (auto split: if_splits)

lemma sorted_wrt_insert_pos:
  assumes "sorted_wrt (\<lambda>a b. strcmp a b \<le> 0) us" "\<forall>u \<in> set us. NUL \<notin> set u" "NUL \<notin> set w"
  defines "pos \<equiv> insert_pos w us (length us)"
  shows "sorted_wrt (\<lambda>a b. strcmp a b \<le> 0) (take pos us @ w # drop pos us)"
proof -
  have pos: "pos \<le> length us" by (simp add: pos_def insert_pos_le)
  have after: "\<forall>u \<in> set (drop pos us). strcmp w u \<le> 0"
  proof
    fix u assume "u \<in> set (drop pos us)"
    then obtain j where "j < length us - pos" "u = drop pos us ! j"
      by (auto simp: in_set_conv_nth)
    then show "strcmp w u \<le> 0"
      using insert_pos_after [of w us "length us" "pos + j"] pos by (simp add: pos_def)
  qed
  have before: "\<forall>u \<in> set (take pos us). strcmp u w \<le> 0"
  proof
    fix u assume u: "u \<in> set (take pos us)"
    then obtain j where j: "j < pos" "u = us ! j"
      using pos by (auto simp: in_set_conv_nth)
    then have p0: "0 < pos" by simp
    let ?v = "us ! (pos - 1)"
    have vin: "?v \<in> set us" using p0 pos by simp
    have uin: "u \<in> set us" using u by (meson in_set_takeD)
    have "\<not> strcmp w ?v \<le> 0"
      using insert_pos_before [of w us "length us"] p0 by (simp add: pos_def)
    then have vw: "strcmp ?v w \<le> 0"
      using strcmp_total [of w ?v] assms(2,3) vin by blast
    have uv: "strcmp u ?v \<le> 0"
    proof (cases "j = pos - 1")
      case True
      then show ?thesis using j by (simp add: strcmp_refl)
    next
      case False
      then have "j < pos - 1" using j by simp
      then show ?thesis
        using assms(1) j pos p0 by (simp add: sorted_wrt_iff_nth_less)
    qed
    show "strcmp u w \<le> 0"
      using strcmp_trans [OF _ _ _ uv vw] assms(2,3) uin vin by blast
  qed
  have s1: "sorted_wrt (\<lambda>a b. strcmp a b \<le> 0) (take pos us)"
    and s2: "sorted_wrt (\<lambda>a b. strcmp a b \<le> 0) (drop pos us)"
    using assms(1) by (auto intro: sorted_wrt_take sorted_wrt_drop)
  have cross: "\<forall>x \<in> set (take pos us). \<forall>y \<in> set (drop pos us). strcmp x y \<le> 0"
  proof (intro ballI)
    fix x y assume "x \<in> set (take pos us)" "y \<in> set (drop pos us)"
    then obtain i j where "i < pos" "x = us ! i" "j < length us - pos" "y = us ! (pos + j)"
      using pos by (auto simp: in_set_conv_nth)
    then show "strcmp x y \<le> 0"
      using assms(1) pos by (simp add: sorted_wrt_iff_nth_less)
  qed
  show ?thesis
    using s1 s2 before after cross by (auto simp: sorted_wrt_append)
qed

lemma at_Some [simp]: "i < length xs \<Longrightarrow> at xs i = Some (xs ! i)"
  by (simp add: at_def)

lemma at_None [simp]: "\<not> i < length xs \<Longrightarrow> at xs i = None"
  by (simp add: at_def)

lemma at_eq_Some: "at xs i = Some x \<longleftrightarrow> i < length xs \<and> xs ! i = x"
  by (auto simp: at_def)

lemma insert_pos_cong:
  "\<forall>j<k. us ! j = vs ! j \<Longrightarrow> insert_pos w us k = insert_pos w vs k"
  by (induction k) auto

lemma orderArray_loop_spec:
  assumes "pool_ok (ht_stringsPool t)" "pool_string (ht_stringsPool t) p = Some w"
    and "k < length arr"
    and "\<forall>j<k. arr ! j < length (ht_entries t) \<and>
               stored (ht_stringsPool t) (ht_entries t ! (arr ! j))"
  defines "word \<equiv> \<lambda>i. word_of (ht_stringsPool t) (ht_entries t ! i)"
  shows "\<exists>arr'. orderArray_loop t p arr k = Some (arr', insert_pos w (map word arr) k) \<and>
           length arr' = length arr \<and>
           (\<forall>j < length arr. arr' ! j =
              (if insert_pos w (map word arr) k < j \<and> j \<le> k then arr ! (j - 1) else arr ! j))"
  using assms(3,4)
proof (induction k arbitrary: arr)
  case 0
  then show ?case by simp
next
  case (Suc i)
  let ?ind = "arr ! i"
  have i: "i < length arr" "Suc i < length arr" using Suc.prems by auto
  have ind: "?ind < length (ht_entries t)" "stored (ht_stringsPool t) (ht_entries t ! ?ind)"
    using Suc.prems by auto
  have rd: "pool_string (ht_stringsPool t) (e_letters (ht_entries t ! ?ind)) = Some (word ?ind)"
    using pool_string_stored [OF assms(1) ind(2)] by (simp add: word_def)
  show ?case
  proof (cases "strcmp w (word ?ind) \<le> 0")
    case False
    then show ?thesis using i ind rd assms(2) by simp
  next
    case True
    let ?arr1 = "arr[Suc i := ?ind]"
    have pre: "i < length ?arr1"
      "\<forall>j<i. ?arr1 ! j < length (ht_entries t) \<and>
               stored (ht_stringsPool t) (ht_entries t ! (?arr1 ! j))"
      using i Suc.prems by auto
    from Suc.IH [OF pre] obtain arr' where
      r: "orderArray_loop t p ?arr1 i = Some (arr', insert_pos w (map word ?arr1) i)"
      and l: "length arr' = length ?arr1"
      and n: "\<forall>j < length ?arr1. arr' ! j =
              (if insert_pos w (map word ?arr1) i < j \<and> j \<le> i then ?arr1 ! (j - 1) else ?arr1 ! j)"
      by blast
    have pc: "insert_pos w (map word ?arr1) i = insert_pos w (map word arr) i"
      using i by (intro insert_pos_cong) auto
    have pos: "insert_pos w (map word arr) (Suc i) = insert_pos w (map word arr) i"
      using True i by simp
    have ple: "insert_pos w (map word arr) i \<le> i" by (rule insert_pos_le)
    have "orderArray_loop t p arr (Suc i) = Some (arr', insert_pos w (map word arr) (Suc i))"
      using i ind rd assms(2) True r pc pos by simp
    moreover have "\<forall>j < length arr. arr' ! j =
        (if insert_pos w (map word arr) (Suc i) < j \<and> j \<le> Suc i then arr ! (j - 1) else arr ! j)"
    proof (intro allI impI)
      fix j assume j: "j < length arr"
      show "arr' ! j =
        (if insert_pos w (map word arr) (Suc i) < j \<and> j \<le> Suc i then arr ! (j - 1) else arr ! j)"
        using n [rule_format, of j] j pc pos ple i
        by (auto simp: nth_list_update)
    qed
    ultimately show ?thesis using l by auto
  qed
qed

lemma nth_insert_at:
  assumes "p \<le> length A" "j \<le> length A"
  shows "(take p A @ x # drop p A) ! j =
         (if j < p then A ! j else if j = p then x else A ! (j - 1))"
proof -
  have lt: "length (take p A) = p" using assms(1) by simp
  consider "j < p" | "j = p" | "p < j" by linarith
  then show ?thesis
  proof cases
    case 1
    then show ?thesis using lt by (simp add: nth_append)
  next
    case 2
    then show ?thesis using lt by (metis less_irrefl nth_append_length)
  next
    case 3
    then obtain d where d: "j = Suc (p + d)" using less_imp_Suc_add by (metis add_Suc_right)
    have "(take p A @ x # drop p A) ! (length (take p A) + Suc d) = (x # drop p A) ! Suc d"
      by (rule nth_append_length_plus)
    then have "(take p A @ x # drop p A) ! Suc (p + d) = drop p A ! d"
      using lt by simp
    also have "\<dots> = A ! (p + d)" using assms d by simp
    finally show ?thesis using d by simp
  qed
qed

lemma orderArray_insert_spec:
  assumes "pool_ok (ht_stringsPool t)" "pool_string (ht_stringsPool t) p = Some w"
    and "ht_size t < length (ht_alphOrderArray t)"
    and "\<forall>j<ht_size t. ht_alphOrderArray t ! j < length (ht_entries t) \<and>
               stored (ht_stringsPool t) (ht_entries t ! (ht_alphOrderArray t ! j))"
  defines "us \<equiv> map (\<lambda>i. word_of (ht_stringsPool t) (ht_entries t ! i))
                  (take (ht_size t) (ht_alphOrderArray t))"
  defines "pos \<equiv> insert_pos w us (ht_size t)"
  shows "\<exists>arr'. orderArray_insert t p ind = Some (t\<lparr>ht_alphOrderArray := arr'\<rparr>) \<and>
           length arr' = length (ht_alphOrderArray t) \<and>
           take (Suc (ht_size t)) arr' =
             take pos (take (ht_size t) (ht_alphOrderArray t)) @ ind #
             drop pos (take (ht_size t) (ht_alphOrderArray t))"
proof (cases "ht_size t = 0")
  case True
  then show ?thesis
    using assms(3) by (auto simp: orderArray_insert_def pos_def take_Suc_conv_app_nth)
next
  case False
  let ?arr = "ht_alphOrderArray t"
  let ?n = "ht_size t"
  let ?word = "\<lambda>i. word_of (ht_stringsPool t) (ht_entries t ! i)"
  from orderArray_loop_spec [OF assms(1,2,3,4)] obtain arr' where
    r: "orderArray_loop t p ?arr ?n = Some (arr', insert_pos w (map ?word ?arr) ?n)"
    and l: "length arr' = length ?arr"
    and n: "\<forall>j < length ?arr. arr' ! j =
            (if insert_pos w (map ?word ?arr) ?n < j \<and> j \<le> ?n then ?arr ! (j - 1) else ?arr ! j)"
    by blast
  have pc: "insert_pos w (map ?word ?arr) ?n = pos"
    unfolding pos_def us_def using assms(3) by (intro insert_pos_cong) auto
  have ple: "pos \<le> ?n" by (simp add: pos_def insert_pos_le)
  have res: "orderArray_insert t p ind = Some (t\<lparr>ht_alphOrderArray := arr'[pos := ind]\<rparr>)"
    using False r pc l ple assms(3) by (simp add: orderArray_insert_def)
  have "take (Suc ?n) (arr'[pos := ind]) = take pos (take ?n ?arr) @ ind # drop pos (take ?n ?arr)"
  proof (rule nth_equalityI)
    show "length (take (Suc ?n) (arr'[pos := ind])) =
          length (take pos (take ?n ?arr) @ ind # drop pos (take ?n ?arr))"
      using l ple assms(3) by simp
  next
    fix j assume "j < length (take (Suc ?n) (arr'[pos := ind]))"
    then have j: "j \<le> ?n" "j < length ?arr" using l assms(3) by auto
    have lj: "j < length arr'" using j l by simp
    have lhs: "take (Suc ?n) (arr'[pos := ind]) ! j = (if j = pos then ind else arr' ! j)"
      using j lj by (simp add: nth_list_update)
    have rhs: "(take pos (take ?n ?arr) @ ind # drop pos (take ?n ?arr)) ! j =
          (if j < pos then take ?n ?arr ! j else if j = pos then ind else take ?n ?arr ! (j - 1))"
      using nth_insert_at [of pos "take ?n ?arr" j ind] ple j(1) assms(3) by simp
    have mid: "arr' ! j = (if pos < j then ?arr ! (j - 1) else ?arr ! j)"
      using n [rule_format, OF j(2)] j(1) pc by simp
    show "take (Suc ?n) (arr'[pos := ind]) ! j =
          (take pos (take ?n ?arr) @ ind # drop pos (take ?n ?arr)) ! j"
      unfolding lhs rhs mid using j(1) ple by auto
  qed
  then show ?thesis using res l by auto
qed

section \<open>One probed slot\<close>

lemma live_card_bound:
  assumes "index_ok arr n es" "i < length es" "\<not> live es i"
  shows "n < length es"
proof -
  have "card {k. live es k} = n"
    using assms(1) distinct_card [of "take n arr"] by (auto simp: index_ok_def)
  moreover have "{k. live es k} \<subseteq> {..<length es} - {i}"
    using assms(3) by (auto simp: live_def)
  then have "card {k. live es k} \<le> card ({..<length es} - {i})"
    by (intro card_mono) auto
  ultimately show ?thesis using assms(2) by simp
qed

lemma index_ok_nth:
  assumes "index_ok arr n es" "j < n"
  shows "live es (arr ! j)"
proof -
  have n: "n \<le> length arr" and s: "set (take n arr) = {i. live es i}"
    using assms(1) by (auto simp: index_ok_def)
  have "take n arr ! j \<in> set (take n arr)"
    using assms(2) n by (intro nth_mem) simp
  then have "arr ! j \<in> set (take n arr)" using assms(2) by simp
  then show ?thesis unfolding s by simp
qed

lemma insert_entry_full:
  assumes "table_ok t" "i < ht_capacity t" "e_count (ht_entries t ! i) = 0"
    and "\<not> mp_nextChar (ht_stringsPool t) + (wb_curPosition buf + 1) < mp_capacity (ht_stringsPool t)"
  shows "insert_entry t buf i nd displ = Return DATA_STRUCT_FULL t"
proof -
  have "e_letters (ht_entries t ! i) = 0"
    using assms(1,2,3) by (auto simp: table_ok_def store_ok_def entries_stored_def)
  then have "(ht_entries t)[i := (ht_entries t ! i)\<lparr>e_letters := 0\<rparr>] = ht_entries t"
    by (metis WordHashTabEntry.surjective WordHashTabEntry.update_convs(1) list_update_id)
  then show ?thesis
    using assms(4) by (simp add: insert_entry_def MemoryPool_alloc_block_def)
qed

lemma insert_entry_success:
  assumes ok: "table_ok t" and tok: "good_token buf"
    and i: "i < ht_capacity t" and empty: "e_count (ht_entries t ! i) = 0"
    and room: "mp_nextChar (ht_stringsPool t) + (wb_curPosition buf + 1) < mp_capacity (ht_stringsPool t)"
  shows "\<exists>t'. insert_entry t buf i nd displ = Return SUCCESS t' \<and> inserted t buf i displ t'"
proof -
  let ?pool = "ht_stringsPool t"
  let ?es = "ht_entries t"
  let ?n = "ht_size t"
  let ?arr = "ht_alphOrderArray t"
  let ?w = "c_str (wb_letters buf)"
  let ?p = "mp_memSpace ?pool + mp_nextChar ?pool"
  let ?e1 = "(?es ! i)\<lparr>e_letters := ?p, e_length := wb_curPosition buf + 1,
                         e_count := e_count (?es ! i) + 1, e_displacement := displ\<rparr>"
  let ?es1 = "?es[i := ?e1]"
  let ?pool1 = "written ?pool (wb_letters buf)"
  let ?t1 = "t\<lparr>ht_entries := ?es1, ht_stringsPool := ?pool1\<rparr>"
  note g = strncpy_good_token [OF tok]
  have pk: "pool_ok ?pool" and es: "entries_stored ?pool ?es" and ix: "index_ok ?arr ?n ?es"
    and len: "length ?es = ht_capacity t" "length ?arr = ht_capacity t"
    using ok by (auto simp: table_ok_def store_ok_def)
  have room': "mp_nextChar ?pool + length (wb_letters buf) < mp_capacity ?pool"
    using room g(4) by simp
  have p0: "?p \<noteq> 0" using pk by (simp add: pool_ok_def)
  have nl: "\<not> live ?es i" using empty by (simp add: live_def)
  have n_lt: "?n < ht_capacity t"
    using live_card_bound [OF ix _ nl] i len by simp
  have alloc: "MemoryPool_alloc_block ?pool (wb_curPosition buf + 1) =
      (?p, ?pool\<lparr>mp_nextChar := mp_nextChar ?pool + (wb_curPosition buf + 1)\<rparr>)"
    using room by (simp add: MemoryPool_alloc_block_def)
  have ne: "wb_letters buf \<noteq> []" using g(4) by auto
  have copy: "string_copy (?pool\<lparr>mp_nextChar := mp_nextChar ?pool + (wb_curPosition buf + 1)\<rparr>)
      ?p (wb_letters buf) (wb_curPosition buf + 1) = Some (Some ?pool1)"
    using string_copy_written [OF pk room' ne] g(1,4) by simp
  have pk1: "pool_ok ?pool1" using written_pool_ok [OF pk room'] .
  have lw: "length ?w = wb_curPosition buf"
    using arg_cong [OF g(2), of length] g(4) by simp
  have "stored (written ?pool (?w @ [NUL])) ?e1 \<and> word_of (written ?pool (?w @ [NUL])) ?e1 = ?w"
    using written_new_entry [OF pk _ g(5,6), of ?e1] room lw by simp
  then have new: "stored ?pool1 ?e1" "word_of ?pool1 ?e1 = ?w"
    by (simp_all add: g(2))
  have old: "stored ?pool1 (?es ! k) \<and> word_of ?pool1 (?es ! k) = word_of ?pool (?es ! k) \<and> k \<noteq> i"
    if "live ?es k" for k
  proof -
    have "stored ?pool (?es ! k)"
      using that es by (auto simp: live_def entries_stored_def)
    then show ?thesis
      using written_stored [OF pk room'] that nl by auto
  qed
  have rd: "pool_string (ht_stringsPool ?t1) ?p = Some ?w"
    using pool_string_stored [OF pk1 new(1)] new(2) by simp
  have pre: "\<forall>j<ht_size ?t1. ht_alphOrderArray ?t1 ! j < length (ht_entries ?t1) \<and>
               stored (ht_stringsPool ?t1) (ht_entries ?t1 ! (ht_alphOrderArray ?t1 ! j))"
  proof (intro allI impI)
    fix j assume "j < ht_size ?t1"
    then have l: "live ?es (?arr ! j)" using index_ok_nth [OF ix] by simp
    then show "ht_alphOrderArray ?t1 ! j < length (ht_entries ?t1) \<and>
               stored (ht_stringsPool ?t1) (ht_entries ?t1 ! (ht_alphOrderArray ?t1 ! j))"
      using old [OF l] by (simp add: live_def)
  qed
  have us: "map (\<lambda>k. word_of (ht_stringsPool ?t1) (ht_entries ?t1 ! k))
              (take (ht_size ?t1) (ht_alphOrderArray ?t1)) =
            map (\<lambda>k. word_of ?pool (?es ! k)) (take ?n ?arr)"
  proof (rule map_cong)
    show "take (ht_size ?t1) (ht_alphOrderArray ?t1) = take ?n ?arr" by simp
  next
    fix k assume "k \<in> set (take ?n ?arr)"
    then have l: "live ?es k" using ix by (simp add: index_ok_def)
    show "word_of (ht_stringsPool ?t1) (ht_entries ?t1 ! k) = word_of ?pool (?es ! k)"
      using old [OF l] by simp
  qed
  from orderArray_insert_spec [of ?t1 ?p ?w i, OF _ rd _ pre] pk1 n_lt len
  obtain arr' where
    oi: "orderArray_insert ?t1 ?p i = Some (?t1\<lparr>ht_alphOrderArray := arr'\<rparr>)"
    and la: "length arr' = length ?arr"
    and tk: "take (Suc ?n) arr' =
       take (insert_pos ?w (map (\<lambda>k. word_of ?pool (?es ! k)) (take ?n ?arr)) ?n) (take ?n ?arr) @
       i # drop (insert_pos ?w (map (\<lambda>k. word_of ?pool (?es ! k)) (take ?n ?arr)) ?n) (take ?n ?arr)"
    unfolding us by auto
  have ml: "?n \<noteq> 0 \<Longrightarrow> maxLengthWordIndex (ht_pfstats t) < length ?es \<and>
            maxLengthWordIndex (ht_pfstats t) \<noteq> i"
    using ok nl by (auto simp: table_ok_def store_ok_def live_def)
  show ?thesis
    using alloc p0 copy oi la tk ml i len empty room'
    by (auto simp: insert_entry_def inserted_def Let_def)
qed

lemma u32_le: "0 \<le> i \<Longrightarrow> u32 i \<le> nat i"
  using zmod_le_nonneg_dividend [of i "2 ^ 32"] by (simp add: u32_def)

lemma u32_id: "0 \<le> i \<Longrightarrow> i < 2 ^ 32 \<Longrightarrow> u32 i = nat i"
  by (simp add: u32_def)

lemma entry_matches_defined:
  assumes "pool_ok memp" "stored memp e" "good_token buf"
  shows "\<exists>b. entry_matches memp e buf displ = Some b"
proof -
  have l2: "2 \<le> e_length e" using assms(2) by (simp add: stored_def)
  then have "u32 (int (e_length e) - 2) \<le> nat (int (e_length e) - 2)"
    by (intro u32_le) simp
  then have k: "u32 (int (e_length e) - 2) < e_length e" using l2 by linarith
  have "0 < e_length e" using l2 by simp
  from pool_char_stored [OF assms(1,2) this] pool_char_stored [OF assms(1,2) k]
    good_token_bounds(4,5) [OF assms(3)]
  show ?thesis
    by (auto simp: entry_matches_def)
qed

lemma live_size_nonzero:
  assumes "index_ok arr n es" "live es i"
  shows "n \<noteq> 0"
proof
  assume "n = 0"
  then have "{k. live es k} = {}" using assms(1) by (simp add: index_ok_def)
  then show False using assms(2) by blast
qed

lemma increment_entry_success:
  assumes ok: "table_ok t" and l: "live (ht_entries t) i"
  shows "\<exists>t'. increment_entry t i = Return SUCCESS t' \<and> incremented t i t'"
proof -
  have "ht_size t \<noteq> 0"
    using live_size_nonzero [OF _ l] ok by (auto simp: table_ok_def store_ok_def)
  then have "maxCountWordIndex (ht_pfstats t) < length (ht_entries t)"
    using ok by (auto simp: table_ok_def store_ok_def live_def)
  then show ?thesis
    using l by (auto simp: increment_entry_def incremented_def Let_def live_def)
qed

lemma try_slot_cases:
  assumes ok: "table_ok t" and tok: "good_token buf" and i: "i < ht_capacity t"
  shows "(try_slot t buf i nd displ = Next \<and> live (ht_entries t) i \<and>
            entry_matches (ht_stringsPool t) (ht_entries t ! i) buf displ = Some False) \<or>
         (\<exists>t'. try_slot t buf i nd displ = Return SUCCESS t' \<and> incremented t i t' \<and>
            entry_matches (ht_stringsPool t) (ht_entries t ! i) buf displ = Some True) \<or>
         (try_slot t buf i nd displ = Return DATA_STRUCT_FULL t \<and> \<not> live (ht_entries t) i \<and>
            \<not> mp_nextChar (ht_stringsPool t) + (wb_curPosition buf + 1)
                < mp_capacity (ht_stringsPool t)) \<or>
         (\<exists>t'. try_slot t buf i nd displ = Return SUCCESS t' \<and> inserted t buf i displ t')"
proof -
  have len: "length (ht_entries t) = ht_capacity t"
    and pk: "pool_ok (ht_stringsPool t)"
    and es: "entries_stored (ht_stringsPool t) (ht_entries t)"
    using ok by (auto simp: table_ok_def store_ok_def)
  show ?thesis
  proof (cases "e_count (ht_entries t ! i) = 0")
    case True
    then have nl: "\<not> live (ht_entries t) i" by (simp add: live_def)
    show ?thesis
    proof (cases "mp_nextChar (ht_stringsPool t) + (wb_curPosition buf + 1)
                < mp_capacity (ht_stringsPool t)")
      case False
      then show ?thesis
        using insert_entry_full [OF ok i True False] True nl i len
        by (simp add: try_slot_def)
    next
      case room: True
      then show ?thesis
        using insert_entry_success [OF ok tok i True room, of nd displ] True i len
        by (auto simp: try_slot_def)
    qed
  next
    case False
    then have l: "live (ht_entries t) i" using i len by (simp add: live_def)
    have st: "stored (ht_stringsPool t) (ht_entries t ! i)"
      using es False i len by (auto simp: entries_stored_def)
    from entry_matches_defined [OF pk st tok, of displ] obtain b where
      b: "entry_matches (ht_stringsPool t) (ht_entries t ! i) buf displ = Some b" by blast
    show ?thesis
      using increment_entry_success [OF ok l] b False l i len
      by (cases b) (auto simp: try_slot_def)
  qed
qed

section \<open>The probing loop as a scan of the probe sequence\<close>

declare add_word_loop.simps [simp del]
declare migrate_probe.simps [simp del]

lemma probes_from_step:
  "d < max (cap - h) (h + 1) \<Longrightarrow>
     probes_from cap h d = probe_at cap h d @ probes_from cap h (d + 1)"
  by (simp add: probes_from_def upt_conv_Cons)

lemma probes_from_done:
  "\<not> d < max (cap - h) (h + 1) \<Longrightarrow> probes_from cap h d = []"
  by (auto simp: probes_from_def)

lemma probe_at_outside:
  "\<not> d < max (cap - h) (h + 1) \<Longrightarrow> probe_at cap h d = []"
  by (auto simp: probe_at_def)

lemma add_word_loop_scan:
  "add_word_loop t buf h d = scan t buf (probe_at (ht_capacity t) h d @ probes_from (ht_capacity t) h (d + 1))"
proof (induction t buf h d rule: add_word_loop.induct)
  case (1 t buf h d)
  let ?cap = "ht_capacity t"
  let ?A = "if h + d < ?cap then try_slot t buf (h + d) d (int d) else Next"
  let ?B = "if d \<le> h \<and> 0 < d then try_slot t buf (h - d) d (- int d) else Next"
  let ?R = "probes_from ?cap h (d + 1)"
  have cont: "(h + (d + 1) < ?cap \<or> h \<ge> d + 1) \<longleftrightarrow> d + 1 < max (?cap - h) (h + 1)"
    by auto
  have unfold: "add_word_loop t buf h d =
      (case ?A of Fault \<Rightarrow> None | Return st t' \<Rightarrow> Some (st, t')
       | Next \<Rightarrow> (case ?B of Fault \<Rightarrow> None | Return st t' \<Rightarrow> Some (st, t')
          | Next \<Rightarrow> (if h + (d + 1) < ?cap \<or> h \<ge> d + 1
                      then add_word_loop t buf h (d + 1) else Some (GEN_FAIL, t))))"
    by (subst add_word_loop.simps) simp
  have split_scan: "scan t buf (probe_at ?cap h d @ ?R) =
      (case ?A of Fault \<Rightarrow> None | Return st t' \<Rightarrow> Some (st, t')
       | Next \<Rightarrow> (case ?B of Fault \<Rightarrow> None | Return st t' \<Rightarrow> Some (st, t')
          | Next \<Rightarrow> scan t buf ?R))"
    by (auto simp: probe_at_def split: slot_result.splits)
  show ?case
  proof (cases "?A = Next \<and> ?B = Next")
    case False
    then show ?thesis
      unfolding unfold split_scan by (cases ?A; cases ?B) simp_all
  next
    case True
    then have a: "?A = Next" and b: "?B = Next" by blast+
    have "(if h + (d + 1) < ?cap \<or> h \<ge> d + 1
           then add_word_loop t buf h (d + 1) else Some (GEN_FAIL, t)) = scan t buf ?R"
    proof (cases "h + (d + 1) < ?cap \<or> h \<ge> d + 1")
      case c: True
      then have "d + 1 < max (?cap - h) (h + 1)" using cont by blast
      then have "?R = probe_at ?cap h (d + 1) @ probes_from ?cap h (d + 1 + 1)"
        by (rule probes_from_step)
      then show ?thesis using 1 [OF a _ c] b c by simp
    next
      case c: False
      then have "\<not> d + 1 < max (?cap - h) (h + 1)" using cont by blast
      then have "?R = []" by (rule probes_from_done)
      then show ?thesis using c by simp
    qed
    then show ?thesis unfolding unfold split_scan a b by simp
  qed
qed

lemma add_word_loop_scan0:
  "add_word_loop t buf h 0 = scan t buf (probes_from (ht_capacity t) h 0)"
proof (cases "0 < max (ht_capacity t - h) (h + 1)")
  case True
  then show ?thesis using add_word_loop_scan [of t buf h 0] probes_from_step [of 0 "ht_capacity t" h]
    by simp
next
  case False
  then show ?thesis by simp
qed

lemma probes_from_slot_bound:
  assumes "(i, nd, dp) \<in> set (probes_from cap h d)" "h < cap"
  shows "i < cap" "int i = int h + dp" "nd = nat \<bar>dp\<bar>"
  using assms by (auto simp: probes_from_def probe_at_def split: if_splits)

lemma probes_from_cover:
  assumes "i < cap" "h < cap"
  shows "\<exists>nd dp. (i, nd, dp) \<in> set (probes_from cap h 0)"
proof (cases "h \<le> i")
  case True
  let ?d = "i - h"
  have "?d < max (cap - h) (h + 1)" using assms True by auto
  moreover have "(i, ?d, int ?d) \<in> set (probe_at cap h ?d)"
    using assms True by (simp add: probe_at_def)
  ultimately show ?thesis
    unfolding probes_from_def by (auto intro!: exI [of _ ?d] bexI [of _ ?d])
next
  case False
  let ?d = "h - i"
  have "?d < max (cap - h) (h + 1)" using assms False by auto
  moreover have "(i, ?d, - int ?d) \<in> set (probe_at cap h ?d)"
    using assms False by (simp add: probe_at_def)
  ultimately show ?thesis
    unfolding probes_from_def by (auto intro!: exI [of _ ?d] bexI [of _ ?d])
qed

lemma scan_result:
  assumes "\<forall>(i, nd, dp) \<in> set ps. try_slot t buf i nd dp \<noteq> Fault"
  shows "(scan t buf ps = Some (GEN_FAIL, t) \<and>
            (\<forall>(i, nd, dp) \<in> set ps. try_slot t buf i nd dp = Next)) \<or>
         (\<exists>pre i nd dp post st t'. ps = pre @ (i, nd, dp) # post \<and>
            (\<forall>(j, n', d') \<in> set pre. try_slot t buf j n' d' = Next) \<and>
            try_slot t buf i nd dp = Return st t' \<and> scan t buf ps = Some (st, t'))"
  using assms
proof (induction ps)
  case Nil
  then show ?case by simp
next
  case (Cons p ps)
  obtain i nd dp where p: "p = (i, nd, dp)" by (cases p)
  show ?case
  proof (cases "try_slot t buf i nd dp")
    case (Return st t')
    then have "p # ps = [] @ (i, nd, dp) # ps \<and>
        (\<forall>(j, n', d') \<in> set []. try_slot t buf j n' d' = Next) \<and>
        try_slot t buf i nd dp = Return st t' \<and> scan t buf (p # ps) = Some (st, t')"
      using p by simp
    then show ?thesis by blast
  next
    case Next
    from Cons.IH Cons.prems consider
      (fail) "scan t buf ps = Some (GEN_FAIL, t)"
        "\<forall>(i, nd, dp) \<in> set ps. try_slot t buf i nd dp = Next"
      | (hit) pre j n' d' post st t' where "ps = pre @ (j, n', d') # post"
        "\<forall>(j, n', d') \<in> set pre. try_slot t buf j n' d' = Next"
        "try_slot t buf j n' d' = Return st t'" "scan t buf ps = Some (st, t')"
      by auto
    then show ?thesis
    proof cases
      case fail
      then show ?thesis using p Next by simp
    next
      case hit
      then have "p # ps = (p # pre) @ (j, n', d') # post \<and>
        (\<forall>(j, n', d') \<in> set (p # pre). try_slot t buf j n' d' = Next) \<and>
        try_slot t buf j n' d' = Return st t' \<and> scan t buf (p # ps) = Some (st, t')"
        using p Next by simp
      then show ?thesis by blast
    qed
  next
    case Fault
    then show ?thesis using Cons.prems p by simp
  qed
qed

lemma hash_index_lt:
  assumes "0 < cap"
  shows "unat ((x :: 64 word) mod of_nat cap) < cap"
proof -
  have eq: "unat (x mod of_nat cap) = unat x mod (cap mod 2 ^ 64)"
    by (simp add: unat_mod unat_of_nat)
  show ?thesis
  proof (cases "cap mod 2 ^ 64 = 0")
    case True
    then have "2 ^ 64 \<le> cap" using assms by (meson dvd_imp_le mod_eq_0_iff_dvd)
    moreover have "unat x < 2 ^ LENGTH(64)" by (rule unsigned_less)
    then have "unat x < 2 ^ 64" by simp
    ultimately show ?thesis using eq True by simp
  next
    case False
    then have "unat x mod (cap mod 2 ^ 64) < cap mod 2 ^ 64" by simp
    also have "\<dots> \<le> cap" by simp
    finally show ?thesis using eq by simp
  qed
qed

lemma add_word_scan:
  assumes "table_ok t" "good_token buf"
  shows "WordHashTable_add_word t buf =
         scan t buf (probes_from (ht_capacity t) (hash_index (ht_capacity t) (wb_letters buf)) 0)"
  using assms strncpy_good_token(3,4) [OF assms(2)]
  by (simp add: WordHashTable_add_word_def table_ok_def hash_index_def add_word_loop_scan0)

lemma try_slot_no_fault:
  assumes "table_ok t" "good_token buf" "i < ht_capacity t"
  shows "try_slot t buf i nd dp \<noteq> Fault"
  using try_slot_cases [OF assms, of nd dp] by auto

lemma add_word_result:
  assumes ok: "table_ok t" and tok: "good_token buf"
  shows "\<exists>st t'. WordHashTable_add_word t buf = Some (st, t') \<and>
     ((st = GEN_FAIL \<and> t' = t \<and> (\<forall>i<ht_capacity t. live (ht_entries t) i)) \<or>
      (st = DATA_STRUCT_FULL \<and> t' = t \<and>
         \<not> mp_nextChar (ht_stringsPool t) + (wb_curPosition buf + 1)
             < mp_capacity (ht_stringsPool t) \<and>
         (\<exists>i<ht_capacity t. \<not> live (ht_entries t) i)) \<or>
      (st = SUCCESS \<and> (\<exists>i. incremented t i t')) \<or>
      (st = SUCCESS \<and> (\<exists>i dp. inserted t buf i dp t')))"
proof -
  let ?cap = "ht_capacity t"
  let ?h = "hash_index ?cap (wb_letters buf)"
  let ?ps = "probes_from ?cap ?h 0"
  have cap: "0 < ?cap" using ok by (simp add: table_ok_def)
  have h: "?h < ?cap" unfolding hash_index_def using cap by (rule hash_index_lt)
  have bound: "i < ?cap" if "(i, nd, dp) \<in> set ?ps" for i nd dp
    using probes_from_slot_bound(1) [OF that h] .
  have nf: "\<forall>(i, nd, dp) \<in> set ?ps. try_slot t buf i nd dp \<noteq> Fault"
    using bound try_slot_no_fault [OF ok tok] by blast
  from scan_result [OF nf] consider
    (fail) "scan t buf ?ps = Some (GEN_FAIL, t)"
      "\<forall>(i, nd, dp) \<in> set ?ps. try_slot t buf i nd dp = Next"
    | (hit) pre i nd dp post st t' where "?ps = pre @ (i, nd, dp) # post"
      "try_slot t buf i nd dp = Return st t'" "scan t buf ?ps = Some (st, t')"
    by blast
  then show ?thesis
  proof cases
    case fail
    have "live (ht_entries t) i" if "i < ?cap" for i
    proof -
      from probes_from_cover [OF that h] obtain nd dp where m: "(i, nd, dp) \<in> set ?ps" by blast
      then have "try_slot t buf i nd dp = Next" using fail(2) by blast
      then show ?thesis using try_slot_cases [OF ok tok that, of nd dp] by auto
    qed
    then show ?thesis using fail(1) add_word_scan [OF ok tok] by simp
  next
    case hit
    have "(i, nd, dp) \<in> set ?ps" using hit(1) by simp
    then have i: "i < ?cap" by (rule bound)
    show ?thesis
      using try_slot_cases [OF ok tok i, of nd dp] hit(2,3) add_word_scan [OF ok tok] i
      by auto
  qed
qed

section \<open>A successful insertion keeps the invariants\<close>

lemma stored_count_update [simp]:
  "stored memp (e\<lparr>e_count := c\<rparr>) = stored memp e"
  "word_of memp (e\<lparr>e_count := c\<rparr>) = word_of memp e"
  by (simp_all add: stored_def word_of_def entry_bytes_def)

lemma live_update_count:
  assumes "live es i" "c \<noteq> 0"
  shows "live (es[i := (es ! i)\<lparr>e_count := c\<rparr>]) k = live es k"
  using assms by (cases "k = i") (auto simp: live_def)

lemma incremented_table_ok:
  assumes "table_ok t" "incremented t i t'"
  shows "table_ok t'"
proof -
  let ?es = "ht_entries t"
  let ?es' = "?es[i := (?es ! i)\<lparr>e_count := Suc (e_count (?es ! i))\<rparr>]"
  have l: "live ?es i" and es': "ht_entries t' = ?es'" 
    and same: "ht_alphOrderArray t' = ht_alphOrderArray t" "ht_capacity t' = ht_capacity t"
      "ht_size t' = ht_size t" "ht_stringsPool t' = ht_stringsPool t"
    and pf: "ht_pfstats t' = ht_pfstats t \<or> ht_pfstats t' = (ht_pfstats t)\<lparr>maxCountWordIndex := i\<rparr>"
    using assms(2) by (auto simp: incremented_def)
  have lv: "live ?es' k = live ?es k" for k
    using live_update_count [OF l, of "Suc (e_count (?es ! i))" k] by simp
  have st: "entries_stored (ht_stringsPool t) ?es'"
    using assms(1) l
    by (auto simp: table_ok_def store_ok_def entries_stored_def nth_list_update live_def)
  have ix: "index_ok (ht_alphOrderArray t) (ht_size t) ?es'"
    using assms(1) lv by (simp add: table_ok_def store_ok_def index_ok_def)
  have mx: "live ?es' (maxLengthWordIndex (ht_pfstats t')) \<and>
            live ?es' (maxCountWordIndex (ht_pfstats t'))" if "ht_size t \<noteq> 0"
  proof -
    have m: "live ?es (maxLengthWordIndex (ht_pfstats t))" "live ?es (maxCountWordIndex (ht_pfstats t))"
      using assms(1) that by (simp_all add: table_ok_def store_ok_def)
    have "maxLengthWordIndex (ht_pfstats t') = maxLengthWordIndex (ht_pfstats t)"
      using pf by auto
    moreover have "maxCountWordIndex (ht_pfstats t') = maxCountWordIndex (ht_pfstats t) \<or>
        maxCountWordIndex (ht_pfstats t') = i"
      using pf by auto
    ultimately show ?thesis using m l unfolding lv by metis
  qed
  have "store_ok t'"
    unfolding store_ok_def es' same using assms(1) st ix mx
    by (simp add: table_ok_def store_ok_def es' [symmetric])
  then show ?thesis
    using assms(1) es' same by (simp add: table_ok_def)
qed

lemma report_nth:
  assumes "k < ht_size t" "ht_size t \<le> length (ht_alphOrderArray t)"
  shows "report t ! k = (word_of (ht_stringsPool t) (ht_entries t ! (ht_alphOrderArray t ! k)),
                          e_count (ht_entries t ! (ht_alphOrderArray t ! k)))"
  using assms by (simp add: report_def)

lemma length_report:
  "ht_size t \<le> length (ht_alphOrderArray t) \<Longrightarrow> length (report t) = ht_size t"
  by (simp add: report_def)

lemma sum_list_bump:
  assumes "i \<in> set A" "distinct A" "\<forall>k \<in> set A. k \<noteq> i \<longrightarrow> f' k = f k" "f' i = f i + (1::nat)"
  shows "sum_list (map f' A) = sum_list (map f A) + 1"
  using assms
proof (induction A)
  case Nil
  then show ?case by simp
next
  case (Cons a A)
  show ?case
  proof (cases "a = i")
    case True
    then have "i \<notin> set A" using Cons.prems(2) by simp
    then have "map f' A = map f A" using Cons.prems(3) by (intro map_cong) auto
    then have "sum_list (map f' A) = sum_list (map f A)" by (rule arg_cong)
    then show ?thesis using True Cons.prems(4) by simp
  next
    case False
    then have "sum_list (map f' A) = sum_list (map f A) + 1"
      using Cons by auto
    then show ?thesis using False Cons.prems(3) by simp
  qed
qed

lemma incremented_report:
  assumes "table_ok t" "incremented t i t'"
  shows "map fst (report t') = map fst (report t)"
    and "total_count t' = total_count t + 1"
proof -
  let ?es = "ht_entries t"
  let ?arr = "ht_alphOrderArray t"
  let ?n = "ht_size t"
  let ?A = "take ?n ?arr"
  let ?pool = "ht_stringsPool t"
  let ?es' = "?es[i := (?es ! i)\<lparr>e_count := Suc (e_count (?es ! i))\<rparr>]"
  have l: "live ?es i" and es': "ht_entries t' = ?es'" 
    and same: "ht_alphOrderArray t' = ht_alphOrderArray t"
      "ht_size t' = ht_size t" "ht_stringsPool t' = ht_stringsPool t"
    using assms(2) by (auto simp: incremented_def)
  have ix: "index_ok ?arr ?n ?es" using assms(1) by (simp add: table_ok_def store_ok_def)
  have il: "i < length ?es" using l by (simp add: live_def)
  have w: "word_of ?pool (?es' ! k) = word_of ?pool (?es ! k)" for k
    using il by (cases "k = i") simp_all
  have c: "e_count (?es' ! k) = (if k = i then Suc (e_count (?es ! i)) else e_count (?es ! k))" for k
    using il by (cases "k = i") simp_all
  have r': "report t' = map (\<lambda>k. (word_of ?pool (?es' ! k), e_count (?es' ! k))) ?A"
    unfolding report_def es' same ..
  show "map fst (report t') = map fst (report t)"
    unfolding r' by (simp add: report_def w comp_def)
  have iA: "i \<in> set ?A" and dA: "distinct ?A" using ix l by (auto simp: index_ok_def)
  have "sum_list (map (\<lambda>k. e_count (?es' ! k)) ?A) = sum_list (map (\<lambda>k. e_count (?es ! k)) ?A) + 1"
    using iA dA by (rule sum_list_bump) (simp_all add: c)
  then show "total_count t' = total_count t + 1"
    unfolding total_count_def r' by (simp add: report_def comp_def)
qed

lemma inserted_facts:
  assumes ok: "table_ok t" and tok: "good_token buf" and ins: "inserted t buf i displ t'"
  defines "w \<equiv> c_str (wb_letters buf)"
  defines "A \<equiv> take (ht_size t) (ht_alphOrderArray t)"
  defines "pos \<equiv> insert_pos w (map (\<lambda>k. word_of (ht_stringsPool t) (ht_entries t ! k)) A) (ht_size t)"
  shows "ht_size t < ht_capacity t"
    and "i < length (ht_entries t)" and "\<not> live (ht_entries t) i" and "i \<notin> set A"
    and "live (ht_entries t') k \<longleftrightarrow> k = i \<or> live (ht_entries t) k"
    and "pool_ok (ht_stringsPool t')"
    and "live (ht_entries t) k \<Longrightarrow> ht_entries t' ! k = ht_entries t ! k \<and>
           stored (ht_stringsPool t') (ht_entries t ! k) \<and>
           word_of (ht_stringsPool t') (ht_entries t ! k) = word_of (ht_stringsPool t) (ht_entries t ! k)"
    and "stored (ht_stringsPool t') (ht_entries t' ! i)"
    and "word_of (ht_stringsPool t') (ht_entries t' ! i) = w"
    and "e_count (ht_entries t' ! i) = Suc 0"
    and "take (Suc (ht_size t)) (ht_alphOrderArray t') = take pos A @ i # drop pos A"
    and "pos \<le> ht_size t"
    and "length (ht_entries t') = length (ht_entries t)"
    and "k \<noteq> i \<Longrightarrow> ht_entries t' ! k = ht_entries t ! k"
proof -
  let ?pool = "ht_stringsPool t"
  let ?es = "ht_entries t"
  let ?e1 = "(?es ! i)\<lparr>e_letters := mp_memSpace ?pool + mp_nextChar ?pool,
                e_length := Suc (wb_curPosition buf), e_count := Suc 0, e_displacement := displ\<rparr>"
  note g = strncpy_good_token [OF tok]
  have pk: "pool_ok ?pool" and es: "entries_stored ?pool ?es"
    and ix: "index_ok (ht_alphOrderArray t) (ht_size t) ?es"
    and len: "length ?es = ht_capacity t" "length (ht_alphOrderArray t) = ht_capacity t"
    using ok by (auto simp: table_ok_def store_ok_def)
  have i: "i < length ?es" and empty: "e_count (?es ! i) = 0"
    and room: "mp_nextChar ?pool + length (wb_letters buf) < mp_capacity ?pool"
    and es': "ht_entries t' = ?es[i := ?e1]"
    and pool': "ht_stringsPool t' = written ?pool (wb_letters buf)"
    and tk: "take (Suc (ht_size t)) (ht_alphOrderArray t') = take pos A @ i # drop pos A"
    using ins by (auto simp: inserted_def Let_def A_def pos_def w_def)
  show "i < length ?es" by (rule i)
  show nl: "\<not> live ?es i" using empty by (simp add: live_def)
  show "ht_size t < ht_capacity t" using live_card_bound [OF ix i nl] len by simp
  show "i \<notin> set A" using ix nl by (simp add: index_ok_def A_def)
  show "live (ht_entries t') k \<longleftrightarrow> k = i \<or> live ?es k"
    using i by (cases "k = i") (auto simp: es' live_def)
  show "pool_ok (ht_stringsPool t')" unfolding pool' using written_pool_ok [OF pk room] .
  show "ht_entries t' ! k = ?es ! k \<and> stored (ht_stringsPool t') (?es ! k) \<and>
        word_of (ht_stringsPool t') (?es ! k) = word_of ?pool (?es ! k)" if "live ?es k"
  proof -
    have "k \<noteq> i" using that nl by auto
    moreover have "stored ?pool (?es ! k)"
      using that es by (auto simp: live_def entries_stored_def)
    ultimately show ?thesis
      unfolding pool' es' using written_stored [OF pk room] by simp
  qed
  have lw: "length w = wb_curPosition buf"
    using arg_cong [OF g(2), of length] g(4) by (simp add: w_def)
  have "stored (written ?pool (w @ [NUL])) ?e1 \<and> word_of (written ?pool (w @ [NUL])) ?e1 = w"
    using written_new_entry [OF pk _ g(5,6), of ?e1] room lw g(4) by (simp add: w_def)
  then show "stored (ht_stringsPool t') (ht_entries t' ! i)"
    and "word_of (ht_stringsPool t') (ht_entries t' ! i) = w"
    using i g(2) by (simp_all add: pool' es' w_def)
  show "e_count (ht_entries t' ! i) = Suc 0" using i by (simp add: es')
  show "take (Suc (ht_size t)) (ht_alphOrderArray t') = take pos A @ i # drop pos A" by (rule tk)
  show "pos \<le> ht_size t" by (simp add: pos_def insert_pos_le)
  show "length (ht_entries t') = length (ht_entries t)" by (simp add: es')
  show "k \<noteq> i \<Longrightarrow> ht_entries t' ! k = ht_entries t ! k" by (simp add: es')
qed

lemma insert_at_set: "set (take p A @ i # drop p A) = insert i (set A)"
proof -
  have "set (take p A) \<union> set (drop p A) = set A"
    by (metis append_take_drop_id set_append)
  then show ?thesis by auto
qed

lemma insert_at_distinct:
  assumes "distinct A" "i \<notin> set A"
  shows "distinct (take p A @ i # drop p A)"
proof -
  have "distinct (take p A) \<and> distinct (drop p A) \<and> set (take p A) \<inter> set (drop p A) = {}"
    using assms(1) by (metis append_take_drop_id distinct_append)
  moreover have "i \<notin> set (take p A)" "i \<notin> set (drop p A)"
    using assms(2) by (auto dest: in_set_takeD in_set_dropD)
  ultimately show ?thesis by auto
qed

lemma inserted_table_ok:
  assumes ok: "table_ok t" and tok: "good_token buf" and ins: "inserted t buf i displ t'"
  shows "table_ok t'"
proof -
  note f = inserted_facts [OF assms]
  let ?A = "take (ht_size t) (ht_alphOrderArray t)"
  have ix: "index_ok (ht_alphOrderArray t) (ht_size t) (ht_entries t)"
    and es: "entries_stored (ht_stringsPool t) (ht_entries t)"
    and len: "length (ht_entries t) = ht_capacity t" "length (ht_alphOrderArray t) = ht_capacity t"
    and cap: "0 < ht_capacity t"
    using ok by (auto simp: table_ok_def store_ok_def)
  have same: "ht_capacity t' = ht_capacity t" "ht_size t' = Suc (ht_size t)"
    "length (ht_alphOrderArray t') = length (ht_alphOrderArray t)"
    using ins by (auto simp: inserted_def)
  have dA: "distinct ?A" and sA: "set ?A = {k. live (ht_entries t) k}"
    using ix by (auto simp: index_ok_def)
  have st: "entries_stored (ht_stringsPool t') (ht_entries t')"
    unfolding entries_stored_def
  proof (intro allI impI)
    fix k assume k: "k < length (ht_entries t')"
    show "if e_count (ht_entries t' ! k) \<noteq> 0 then stored (ht_stringsPool t') (ht_entries t' ! k)
          else e_letters (ht_entries t' ! k) = 0"
    proof (cases "k = i")
      case True
      then show ?thesis using f(8,10) by simp
    next
      case False
      then have e: "ht_entries t' ! k = ht_entries t ! k" by (rule f(14))
      show ?thesis
      proof (cases "live (ht_entries t) k")
        case True
        then show ?thesis using f(7) [OF True] e by (simp add: live_def)
      next
        case False
        then show ?thesis using es k e f(13) by (auto simp: entries_stored_def live_def)
      qed
    qed
  qed
  have "Suc (ht_size t) \<le> length (ht_alphOrderArray t')" using f(1) len same by simp
  moreover have "distinct (take (Suc (ht_size t)) (ht_alphOrderArray t'))"
    unfolding f(11) using dA f(4) by (rule insert_at_distinct)
  moreover have "set (take (Suc (ht_size t)) (ht_alphOrderArray t')) = {k. live (ht_entries t') k}"
    unfolding f(11) insert_at_set sA using f(5) by auto
  ultimately have ix': "index_ok (ht_alphOrderArray t') (ht_size t') (ht_entries t')"
    unfolding index_ok_def same by blast
  have mx: "live (ht_entries t') (maxLengthWordIndex (ht_pfstats t')) \<and>
            live (ht_entries t') (maxCountWordIndex (ht_pfstats t'))"
  proof (cases "ht_size t = 0")
    case True
    then show ?thesis using ins f(5) by (simp add: inserted_def)
  next
    case False
    then have m: "live (ht_entries t) (maxLengthWordIndex (ht_pfstats t))"
      "live (ht_entries t) (maxCountWordIndex (ht_pfstats t))"
      using ok by (simp_all add: table_ok_def store_ok_def)
    have pf: "ht_pfstats t' = ht_pfstats t \<or> ht_pfstats t' = (ht_pfstats t)\<lparr>maxLengthWordIndex := i\<rparr>"
      using ins False by (auto simp: inserted_def)
    have "maxCountWordIndex (ht_pfstats t') = maxCountWordIndex (ht_pfstats t)"
      using pf by auto
    moreover have "maxLengthWordIndex (ht_pfstats t') = maxLengthWordIndex (ht_pfstats t) \<or>
        maxLengthWordIndex (ht_pfstats t') = i"
      using pf by auto
    ultimately show ?thesis using m unfolding f(5) by metis
  qed
  have "store_ok t'"
    unfolding store_ok_def using f(6) st ix' mx by simp
  then show ?thesis
    using cap len same f(13) by (simp add: table_ok_def)
qed

lemma report_words_NUL_free:
  assumes "table_ok t" "u \<in> set (map fst (report t))"
  shows "NUL \<notin> set u"
proof -
  from assms(2) obtain k where k: "k \<in> set (take (ht_size t) (ht_alphOrderArray t))"
    and u: "u = word_of (ht_stringsPool t) (ht_entries t ! k)"
    by (auto simp: report_def)
  have "live (ht_entries t) k"
    using assms(1) k by (auto simp: table_ok_def store_ok_def index_ok_def)
  then have "stored (ht_stringsPool t) (ht_entries t ! k)"
    using assms(1) by (auto simp: table_ok_def store_ok_def entries_stored_def live_def)
  then show ?thesis using u by (simp add: stored_def)
qed

lemma inserted_report:
  assumes ok: "table_ok t" and tok: "good_token buf" and ins: "inserted t buf i displ t'"
  defines "w \<equiv> c_str (wb_letters buf)"
  defines "pos \<equiv> insert_pos w (map fst (report t)) (length (report t))"
  shows "report t' = take pos (report t) @ (w, Suc 0) # drop pos (report t)"
proof -
  let ?A = "take (ht_size t) (ht_alphOrderArray t)"
  let ?F = "\<lambda>k. (word_of (ht_stringsPool t) (ht_entries t ! k), e_count (ht_entries t ! k))"
  let ?F' = "\<lambda>k. (word_of (ht_stringsPool t') (ht_entries t' ! k), e_count (ht_entries t' ! k))"
  note f = inserted_facts [OF ok tok ins]
  have ix: "index_ok (ht_alphOrderArray t) (ht_size t) (ht_entries t)"
    using ok by (auto simp: table_ok_def store_ok_def)
  then have n: "ht_size t \<le> length (ht_alphOrderArray t)"
    and sA: "set ?A = {k. live (ht_entries t) k}" by (auto simp: index_ok_def)
  have sz: "ht_size t' = Suc (ht_size t)" using ins by (simp add: inserted_def)
  have r: "report t = map ?F ?A" by (simp add: report_def)
  have lr: "length (report t) = ht_size t" using n by (simp add: report_def)
  have fs: "map fst (report t) = map (\<lambda>k. word_of (ht_stringsPool t) (ht_entries t ! k)) ?A"
    by (simp add: report_def comp_def)
  have p: "pos = insert_pos (c_str (wb_letters buf))
      (map (\<lambda>k. word_of (ht_stringsPool t) (ht_entries t ! k)) ?A) (ht_size t)"
    unfolding pos_def w_def fs lr ..
  have tk: "take (Suc (ht_size t)) (ht_alphOrderArray t') = take pos ?A @ i # drop pos ?A"
    using f(11) unfolding p .
  have old: "?F' k = ?F k" if "k \<in> set ?A" for k
  proof -
    have "live (ht_entries t) k" using that sA by simp
    from f(7) [OF this] show ?thesis by simp
  qed
  have new: "?F' i = (w, Suc 0)" using f(9,10) by (simp add: w_def)
  have m1: "map ?F' (take pos ?A) = map ?F (take pos ?A)"
    by (rule map_cong [OF refl]) (meson in_set_takeD old)
  have m2: "map ?F' (drop pos ?A) = map ?F (drop pos ?A)"
    by (rule map_cong [OF refl]) (meson in_set_dropD old)
  have "report t' = map ?F' (take pos ?A @ i # drop pos ?A)"
    unfolding report_def sz tk ..
  also have "\<dots> = map ?F (take pos ?A) @ (w, Suc 0) # map ?F (drop pos ?A)"
    using m1 m2 new by simp
  also have "\<dots> = take pos (report t) @ (w, Suc 0) # drop pos (report t)"
    unfolding r by (simp add: take_map drop_map)
  finally show ?thesis .
qed

lemma inserted_sorted:
  assumes ok: "table_ok t" and tok: "good_token buf" and ins: "inserted t buf i displ t'"
    and srt: "alph_sorted t"
  shows "alph_sorted t'"
proof -
  let ?w = "c_str (wb_letters buf)"
  let ?us = "map fst (report t)"
  let ?pos = "insert_pos ?w ?us (length ?us)"
  have "map fst (report t') = take ?pos ?us @ ?w # drop ?pos ?us"
    using inserted_report [OF ok tok ins] by (simp add: take_map drop_map)
  moreover have "sorted_wrt (\<lambda>a b. strcmp a b \<le> 0) (take ?pos ?us @ ?w # drop ?pos ?us)"
    using srt report_words_NUL_free [OF ok] strncpy_good_token(6) [OF tok]
    by (intro sorted_wrt_insert_pos) (auto simp: alph_sorted_def)
  ultimately show ?thesis by (simp add: alph_sorted_def)
qed

lemma inserted_total_count:
  assumes ok: "table_ok t" and tok: "good_token buf" and ins: "inserted t buf i displ t'"
  shows "total_count t' = total_count t + 1"
proof -
  let ?pos = "insert_pos (c_str (wb_letters buf)) (map fst (report t)) (length (report t))"
  have "take ?pos (report t) @ drop ?pos (report t) = report t"
    by (rule append_take_drop_id)
  then have "sum_list (map snd (take ?pos (report t))) + sum_list (map snd (drop ?pos (report t))) =
      total_count t"
    unfolding total_count_def by (metis map_append sum_list_append)
  then show ?thesis
    unfolding total_count_def inserted_report [OF ok tok ins] by simp
qed

lemma incremented_sorted:
  assumes "table_ok t" "incremented t i t'" "alph_sorted t"
  shows "alph_sorted t'"
  using incremented_report(1) [OF assms(1,2)] assms(3) by (simp add: alph_sorted_def)

lemma add_word_success:
  assumes ok: "table_ok t" and tok: "good_token buf"
    and r: "WordHashTable_add_word t buf = Some (SUCCESS, t')"
  shows "table_ok t'" and "total_count t' = total_count t + 1"
    and "alph_sorted t \<Longrightarrow> alph_sorted t'"
    and "ht_capacity t' = ht_capacity t"
proof -
  from add_word_result [OF ok tok] r consider
    (inc) i where "incremented t i t'" | (ins) i dp where "inserted t buf i dp t'"
    by auto
  then have "table_ok t' \<and> total_count t' = total_count t + 1 \<and>
      (alph_sorted t \<longrightarrow> alph_sorted t') \<and> ht_capacity t' = ht_capacity t"
  proof cases
    case inc
    then show ?thesis
      using incremented_table_ok [OF ok inc] incremented_report(2) [OF ok inc]
        incremented_sorted [OF ok inc]
      by (auto simp: incremented_def)
  next
    case ins
    then show ?thesis
      using inserted_table_ok [OF ok tok ins] inserted_total_count [OF ok tok ins]
        inserted_sorted [OF ok tok ins]
      by (auto simp: inserted_def)
  qed
  then show "table_ok t'" and "total_count t' = total_count t + 1"
    and "alph_sorted t \<Longrightarrow> alph_sorted t'" and "ht_capacity t' = ht_capacity t"
    by blast+
qed

lemma add_word_full:
  assumes ok: "table_ok t" and tok: "good_token buf"
    and r: "WordHashTable_add_word t buf = Some (DATA_STRUCT_FULL, t')"
  shows "t' = t"
    and "\<not> mp_nextChar (ht_stringsPool t) + (wb_curPosition buf + 1)
             < mp_capacity (ht_stringsPool t)"
    and "\<exists>i<ht_capacity t. \<not> live (ht_entries t) i"
  using add_word_result [OF ok tok] r by auto

lemma add_word_gen_fail:
  assumes ok: "table_ok t" and tok: "good_token buf"
    and r: "WordHashTable_add_word t buf = Some (GEN_FAIL, t')"
  shows "t' = t" and "\<forall>i<ht_capacity t. live (ht_entries t) i"
  using add_word_result [OF ok tok] r by auto

lemma add_word_defined:
  assumes ok: "table_ok t" and tok: "good_token buf"
  shows "WordHashTable_add_word t buf \<noteq> None"
  using add_word_result [OF ok tok] by auto

section \<open>Growing the string pool of a table\<close>

lemma stringPointers_loop_spec:
  assumes "\<forall>i \<in> set is. i < length (ht_alphOrderArray t) \<and>
             ht_alphOrderArray t ! i < length (ht_entries t)"
    and "distinct (map (\<lambda>i. ht_alphOrderArray t ! i) is)"
  shows "\<exists>es'. stringPointers_loop t prev is = Some (t\<lparr>ht_entries := es'\<rparr>) \<and>
           length es' = length (ht_entries t) \<and>
           (\<forall>k < length (ht_entries t). es' ! k =
              (if k \<in> (\<lambda>i. ht_alphOrderArray t ! i) ` set is
               then rebased prev (mp_memSpace (ht_stringsPool t)) (ht_entries t ! k)
               else ht_entries t ! k))"
  using assms
proof (induction "is" arbitrary: t)
  case Nil
  have "t\<lparr>ht_entries := ht_entries t\<rparr> = t" by simp
  then show ?case by (intro exI [of _ "ht_entries t"]) simp
next
  case (Cons i "is")
  let ?v = "ht_alphOrderArray t ! i"
  let ?es = "ht_entries t"
  let ?base = "mp_memSpace (ht_stringsPool t)"
  let ?t1 = "t\<lparr>ht_entries := ?es[?v := rebased prev ?base (?es ! ?v)]\<rparr>"
  have i: "i < length (ht_alphOrderArray t)" "?v < length ?es" using Cons.prems(1) by auto
  have step: "stringPointers_loop t prev (i # is) = stringPointers_loop ?t1 prev is"
    using i by (simp add: rebased_def)
  have pre1: "\<forall>j \<in> set is. j < length (ht_alphOrderArray ?t1) \<and>
             ht_alphOrderArray ?t1 ! j < length (ht_entries ?t1)"
    using Cons.prems(1) by simp
  have pre2: "distinct (map (\<lambda>j. ht_alphOrderArray ?t1 ! j) is)"
    using Cons.prems(2) by simp
  from Cons.IH [OF pre1 pre2] obtain es' where
    r: "stringPointers_loop ?t1 prev is = Some (?t1\<lparr>ht_entries := es'\<rparr>)"
    and l: "length es' = length (ht_entries ?t1)"
    and n: "\<forall>k < length (ht_entries ?t1). es' ! k =
              (if k \<in> (\<lambda>j. ht_alphOrderArray ?t1 ! j) ` set is
               then rebased prev (mp_memSpace (ht_stringsPool ?t1)) (ht_entries ?t1 ! k)
               else ht_entries ?t1 ! k)"
    by blast
  have vn: "?v \<notin> (\<lambda>j. ht_alphOrderArray t ! j) ` set is" using Cons.prems(2) by auto
  have "\<forall>k < length ?es. es' ! k =
      (if k \<in> (\<lambda>j. ht_alphOrderArray t ! j) ` set (i # is)
       then rebased prev ?base (?es ! k) else ?es ! k)"
  proof (intro allI impI)
    fix k assume k: "k < length ?es"
    show "es' ! k = (if k \<in> (\<lambda>j. ht_alphOrderArray t ! j) ` set (i # is)
       then rebased prev ?base (?es ! k) else ?es ! k)"
    proof (cases "k = ?v")
      case True
      then show ?thesis using n [rule_format, of k] k vn by simp
    next
      case False
      then show ?thesis using n [rule_format, of k] k by auto
    qed
  qed
  moreover have "?t1\<lparr>ht_entries := es'\<rparr> = t\<lparr>ht_entries := es'\<rparr>" by simp
  ultimately show ?case using step r l by auto
qed

lemma rebased_same [simp]: "rebased p p e = e"
  by (simp add: rebased_def)

lemma map_nth_upt_take: "n \<le> length xs \<Longrightarrow> map (\<lambda>i. xs ! i) [0..<n] = take n xs"
  by (rule nth_equalityI) auto

lemma pool_expand_result:
  fixes heap :: allocator
  assumes ok: "store_ok t"
  defines "b \<equiv> heap (2 * mp_capacity (ht_stringsPool t))"
  shows "(b = 0 \<and> WordHashTable_MemoryPool_expand heap t = Some (GEN_FAIL, t)) \<or>
         (b \<noteq> 0 \<and> (\<exists>t'. WordHashTable_MemoryPool_expand heap t = Some (SUCCESS, t') \<and>
                         pool_grown b t t'))"
proof (cases "b = 0")
  case True
  then show ?thesis
    by (simp add: WordHashTable_MemoryPool_expand_def MemoryPool_expand_def b_def)
next
  case False
  let ?pool = "ht_stringsPool t"
  let ?memp = "?pool\<lparr>mp_capacity := 2 * mp_capacity ?pool, mp_memSpace := b,
                    mp_cells := mp_cells ?pool @ replicate (mp_capacity ?pool) NUL\<rparr>"
  let ?t1 = "t\<lparr>ht_stringsPool := ?memp\<rparr>"
  have pk: "pool_ok ?pool" and ix: "index_ok (ht_alphOrderArray t) (ht_size t) (ht_entries t)"
    using ok by (auto simp: store_ok_def)
  have me: "MemoryPool_expand heap ?pool = (SUCCESS, ?memp)"
    using False pk by (simp add: MemoryPool_expand_def b_def pool_ok_def Let_def)
  have n: "ht_size t \<le> length (ht_alphOrderArray t)"
    and dA: "distinct (take (ht_size t) (ht_alphOrderArray t))"
    and sA: "set (take (ht_size t) (ht_alphOrderArray t)) = {k. live (ht_entries t) k}"
    using ix by (auto simp: index_ok_def)
  show ?thesis
  proof (cases "mp_memSpace ?pool = b")
    case True
    have "pool_grown b t ?t1" using True by (simp add: pool_grown_def)
    moreover have "WordHashTable_MemoryPool_expand heap t = Some (SUCCESS, ?t1)"
      using me True by (simp add: WordHashTable_MemoryPool_expand_def)
    ultimately show ?thesis using False by blast
  next
    case moved: False
    have img: "(\<lambda>i. ht_alphOrderArray ?t1 ! i) ` set [0..<ht_size ?t1] = {k. live (ht_entries t) k}"
      using sA map_nth_upt_take [OF n] by (metis (no_types, lifting) WordHashTable.select_convs(2,4)
          WordHashTable.surjective WordHashTable.update_convs(5) set_map)
    have pre1: "\<forall>i \<in> set [0..<ht_size ?t1]. i < length (ht_alphOrderArray ?t1) \<and>
             ht_alphOrderArray ?t1 ! i < length (ht_entries ?t1)"
      using n index_ok_nth [OF ix] by (auto simp: live_def)
    have pre2: "distinct (map (\<lambda>i. ht_alphOrderArray ?t1 ! i) [0..<ht_size ?t1])"
      using dA map_nth_upt_take [OF n] by simp
    from stringPointers_loop_spec [OF pre1 pre2, of "mp_memSpace ?pool"] obtain es' where
      r: "stringPointers_loop ?t1 (mp_memSpace ?pool) [0..<ht_size ?t1] = Some (?t1\<lparr>ht_entries := es'\<rparr>)"
      and l: "length es' = length (ht_entries t)"
      and nth: "\<forall>k < length (ht_entries t). es' ! k =
              (if k \<in> (\<lambda>i. ht_alphOrderArray ?t1 ! i) ` set [0..<ht_size ?t1]
               then rebased (mp_memSpace ?pool) b (ht_entries t ! k)
               else ht_entries t ! k)"
      by auto
    have "pool_grown b t (?t1\<lparr>ht_entries := es'\<rparr>)"
      using l nth unfolding img by (simp add: pool_grown_def)
    moreover have "WordHashTable_MemoryPool_expand heap t = Some (SUCCESS, ?t1\<lparr>ht_entries := es'\<rparr>)"
      using me moved r by (simp add: WordHashTable_MemoryPool_expand_def stringPointers_update_def)
    ultimately show ?thesis using False by blast
  qed
qed

lemma pool_grown_facts:
  assumes ok: "store_ok t" and g: "pool_grown b t t'" and b: "b \<noteq> 0"
  shows "live (ht_entries t') k = live (ht_entries t) k"
    and "live (ht_entries t) k \<Longrightarrow> stored (ht_stringsPool t') (ht_entries t' ! k) \<and>
          word_of (ht_stringsPool t') (ht_entries t' ! k) =
            word_of (ht_stringsPool t) (ht_entries t ! k)"
    and "k < length (ht_entries t) \<Longrightarrow>
          e_count (ht_entries t' ! k) = e_count (ht_entries t ! k) \<and>
          e_length (ht_entries t' ! k) = e_length (ht_entries t ! k) \<and>
          e_displacement (ht_entries t' ! k) = e_displacement (ht_entries t ! k)"
    and "store_ok t'"
    and "report t' = report t"
proof -
  let ?pool = "ht_stringsPool t"
  let ?es = "ht_entries t"
  have pk: "pool_ok ?pool" and es: "entries_stored ?pool ?es"
    and ix: "index_ok (ht_alphOrderArray t) (ht_size t) ?es"
    using ok by (auto simp: store_ok_def)
  have same: "ht_alphOrderArray t' = ht_alphOrderArray t" "ht_size t' = ht_size t"
      "ht_pfstats t' = ht_pfstats t" "length (ht_entries t') = length ?es"
    and pool': "ht_stringsPool t' = ?pool\<lparr>mp_capacity := 2 * mp_capacity ?pool, mp_memSpace := b,
         mp_cells := mp_cells ?pool @ replicate (mp_capacity ?pool) NUL\<rparr>"
    and nth: "\<And>k. k < length ?es \<Longrightarrow> ht_entries t' ! k =
        (if live ?es k then rebased (mp_memSpace ?pool) b (?es ! k) else ?es ! k)"
    using g by (auto simp: pool_grown_def)
  show c: "e_count (ht_entries t' ! k) = e_count (?es ! k) \<and>
          e_length (ht_entries t' ! k) = e_length (?es ! k) \<and>
          e_displacement (ht_entries t' ! k) = e_displacement (?es ! k)" if "k < length ?es" for k
    using nth [OF that] by (simp add: rebased_def)
  show lv: "live (ht_entries t') k = live ?es k" for k
    using c [of k] same(4) by (auto simp: live_def)
  show w: "stored (ht_stringsPool t') (ht_entries t' ! k) \<and>
          word_of (ht_stringsPool t') (ht_entries t' ! k) = word_of ?pool (?es ! k)"
    if "live ?es k" for k
  proof -
    have k: "k < length ?es" and "stored ?pool (?es ! k)"
      using that es by (auto simp: live_def entries_stored_def)
    then show ?thesis
      using expanded_stored [OF pk, of "?es ! k" b] nth [OF k] that by (simp add: pool')
  qed
  have st: "entries_stored (ht_stringsPool t') (ht_entries t')"
    unfolding entries_stored_def
  proof (intro allI impI)
    fix k assume k: "k < length (ht_entries t')"
    then have k': "k < length ?es" using same by simp
    show "if e_count (ht_entries t' ! k) \<noteq> 0 then stored (ht_stringsPool t') (ht_entries t' ! k)
          else e_letters (ht_entries t' ! k) = 0"
    proof (cases "live ?es k")
      case True
      then show ?thesis using w [OF True] c [OF k'] by (simp add: live_def)
    next
      case False
      then show ?thesis using es k' nth [OF k'] by (auto simp: entries_stored_def live_def)
    qed
  qed
  show "store_ok t'"
    using ok st expanded_pool_ok [OF pk b] lv
    by (simp add: store_ok_def same pool' index_ok_def)
  show "report t' = report t"
    unfolding report_def same
  proof (rule map_cong [OF refl])
    fix k assume "k \<in> set (take (ht_size t) (ht_alphOrderArray t))"
    then have l: "live ?es k" using ix by (simp add: index_ok_def)
    then have "k < length ?es" by (simp add: live_def)
    then show "(word_of (ht_stringsPool t') (ht_entries t' ! k), e_count (ht_entries t' ! k)) =
          (word_of ?pool (?es ! k), e_count (?es ! k))"
      using w [OF l] c by simp
  qed
qed

lemma pool_grown_table_ok:
  assumes ok: "table_ok t" and g: "pool_grown b t t'" and b: "b \<noteq> 0"
  shows "table_ok t'" and "total_count t' = total_count t"
    and "alph_sorted t' = alph_sorted t"
proof -
  have so: "store_ok t" using ok by (simp add: table_ok_def)
  note f = pool_grown_facts [OF so g b]
  show "table_ok t'"
    using ok f(4) g by (simp add: table_ok_def pool_grown_def)
  show "total_count t' = total_count t" by (simp add: total_count_def f(5))
  show "alph_sorted t' = alph_sorted t" by (simp add: alph_sorted_def f(5))
qed

lemma retry_result:
  assumes ok: "table_ok t" and tok: "good_token buf"
  shows "\<exists>r. add_word_retry heap t buf = Some r \<and>
     (case r of
        Inl f \<Rightarrow> f = POOL_OUT_OF_MEMORY \<or>
                 (f = INSERT_FAILED \<and> (\<forall>i<ht_capacity t. live (ht_entries t) i))
      | Inr t' \<Rightarrow> table_ok t' \<and> total_count t' = total_count t + 1 \<and>
                  (alph_sorted t \<longrightarrow> alph_sorted t') \<and> ht_capacity t' = ht_capacity t \<and>
                  ht_size t \<le> ht_size t' \<and> ht_size t' \<le> Suc (ht_size t))"
  using ok
proof (induction "mp_nextChar (ht_stringsPool t) + wb_curPosition buf + 2 -
                   mp_capacity (ht_stringsPool t)" arbitrary: t rule: less_induct)
  case less
  note ok = less.prems
  from add_word_result [OF ok tok] obtain st t1 where
    aw: "WordHashTable_add_word t buf = Some (st, t1)" by blast
  show ?case
  proof (cases st)
    case SUCCESS
    have sz: "ht_size t \<le> ht_size t1 \<and> ht_size t1 \<le> Suc (ht_size t)"
      using add_word_result [OF ok tok] aw SUCCESS
      by (auto simp: incremented_def inserted_def)
    show ?thesis
      using add_word_success [OF ok tok aw [unfolded SUCCESS]] aw SUCCESS sz
      by (subst add_word_retry.simps) simp
  next
    case GEN_FAIL
    then show ?thesis
      using add_word_gen_fail [OF ok tok aw [unfolded GEN_FAIL]] aw
      by (subst add_word_retry.simps) simp
  next
    case DATA_STRUCT_FULL
    note full = add_word_full [OF ok tok aw [unfolded DATA_STRUCT_FULL]]
    have so: "store_ok t" using ok by (simp add: table_ok_def)
    let ?b = "heap (2 * mp_capacity (ht_stringsPool t))"
    from pool_expand_result [OF so, of heap] consider
      (oom) "?b = 0" "WordHashTable_MemoryPool_expand heap t = Some (GEN_FAIL, t)"
      | (grown) t2 where "?b \<noteq> 0" "WordHashTable_MemoryPool_expand heap t = Some (SUCCESS, t2)"
          "pool_grown ?b t t2"
      by auto
    then show ?thesis
    proof cases
      case oom
      then show ?thesis
        using aw DATA_STRUCT_FULL full(1)
        by (subst add_word_retry.simps) simp
    next
      case grown
      note g = pool_grown_table_ok [OF ok grown(3,1)]
      have cap: "0 < mp_capacity (ht_stringsPool t)"
        using ok by (simp add: table_ok_def store_ok_def pool_ok_def)
      have p2: "mp_capacity (ht_stringsPool t2) = 2 * mp_capacity (ht_stringsPool t)"
        "mp_nextChar (ht_stringsPool t2) = mp_nextChar (ht_stringsPool t)"
        using grown(3) by (simp_all add: pool_grown_def)
      have dec: "mp_nextChar (ht_stringsPool t2) + wb_curPosition buf + 2 -
                   mp_capacity (ht_stringsPool t2)
               < mp_nextChar (ht_stringsPool t) + wb_curPosition buf + 2 -
                   mp_capacity (ht_stringsPool t)"
        using full(2) cap p2 by simp
      from less.hyps [OF dec g(1)] obtain r where
        r: "add_word_retry heap t2 buf = Some r"
        and rc: "case r of
            Inl f \<Rightarrow> f = POOL_OUT_OF_MEMORY \<or>
                 (f = INSERT_FAILED \<and> (\<forall>i<ht_capacity t2. live (ht_entries t2) i))
          | Inr t' \<Rightarrow> table_ok t' \<and> total_count t' = total_count t2 + 1 \<and>
                  (alph_sorted t2 \<longrightarrow> alph_sorted t') \<and> ht_capacity t' = ht_capacity t2 \<and>
                  ht_size t2 \<le> ht_size t' \<and> ht_size t' \<le> Suc (ht_size t2)"
        by blast
      have same: "ht_capacity t2 = ht_capacity t" "ht_size t2 = ht_size t"
        using grown(3) by (simp_all add: pool_grown_def)
      have lv: "live (ht_entries t2) i = live (ht_entries t) i" for i
        using pool_grown_facts(1) [OF so grown(3,1)] .
      have unf: "add_word_retry heap t buf = add_word_retry heap t2 buf"
        using aw DATA_STRUCT_FULL full(1) grown(2)
        by (subst add_word_retry.simps) simp
      show ?thesis
        unfolding unf using r rc g(2,3) same lv
        by (cases r) auto
    qed
  qed
qed

lemma init_table_ok:
  assumes "WordHashTable_init heap cap = Some t" "0 < cap"
  shows "table_ok t" and "ht_size t = 0" and "ht_capacity t = cap" and "report t = []"
proof -
  have h: "heap cap \<noteq> 0" "heap (6 * cap) \<noteq> 0"
    using assms(1) by (auto simp: WordHashTable_init_def MemoryPool_init_def split: if_splits)
  then have t: "t = \<lparr>ht_entries = replicate cap zero_entry,
                    ht_alphOrderArray = replicate cap 0,
                    ht_capacity = cap, ht_size = 0,
                    ht_stringsPool = \<lparr>mp_memSpace = heap (6 * cap), mp_cells = replicate (6 * cap) NUL,
                        mp_nextChar = 0, mp_capacity = 6 * cap\<rparr>,
                    ht_hstats = \<lparr>totalInsertions = 0, totalCollisions = 0\<rparr>,
                    ht_pfstats = \<lparr>maxLengthWordIndex = 0, maxCountWordIndex = 0\<rparr>\<rparr>"
    using assms(1) by (simp add: WordHashTable_init_def MemoryPool_init_def)
  show "ht_size t = 0" "ht_capacity t = cap" by (simp_all add: t)
  show "report t = []" by (simp add: t report_def)
  have "\<not> live (ht_entries t) k" for k
    by (simp add: t live_def zero_entry_def)
  then show "table_ok t"
    using assms(2) h
    by (simp add: t table_ok_def store_ok_def pool_ok_def entries_stored_def index_ok_def
        zero_entry_def)
qed

lemma create_table_ok:
  assumes "WordHashTable_create heap cap = Some t" "0 < cap"
  shows "table_ok t" and "ht_size t = 0" and "ht_capacity t = cap" and "report t = []"
  using init_table_ok [of heap cap t] assms
  by (auto simp: WordHashTable_create_def split: if_splits)

section \<open>Adding a word again after the pool has grown\<close>


lemma entry_matches_stored:
  assumes pk: "pool_ok memp" and st: "stored memp e" and tok: "good_token buf"
  shows "entry_matches memp e buf displ =
     Some (e_length e = wb_curPosition buf + 1 \<and> e_displacement e = displ \<and>
           (word_of memp e @ [NUL]) ! 0 = wb_letters buf ! 0 \<and>
           (word_of memp e @ [NUL]) ! u32 (int (e_length e) - 2) =
              wb_letters buf ! u32 (int (wb_curPosition buf) - 1))"
proof -
  have l2: "2 \<le> e_length e" using st by (simp add: stored_def)
  then have "u32 (int (e_length e) - 2) \<le> nat (int (e_length e) - 2)"
    by (intro u32_le) simp
  then have k: "u32 (int (e_length e) - 2) < e_length e" using l2 by linarith
  have z: "0 < e_length e" using l2 by simp
  from tok obtain w where w: "w \<noteq> []" "wb_letters buf = w @ [NUL]"
    "wb_curPosition buf = length w"
    by (auto simp: good_token_def)
  have "u32 (int (wb_curPosition buf) - 1) \<le> nat (int (wb_curPosition buf) - 1)"
    using w by (intro u32_le) (cases w, auto)
  then have b: "u32 (int (wb_curPosition buf) - 1) < length (wb_letters buf)"
    using w by simp
  have b0: "0 < length (wb_letters buf)" using w by simp
  show ?thesis
  proof (cases "e_length e = wb_curPosition buf + 1")
    case False
    then show ?thesis by (simp add: entry_matches_def)
  next
    case True
    have "int (e_length e) - 2 = int (wb_curPosition buf) - 1" using True by simp
    then have e: "u32 (int (e_length e) - 2) = u32 (int (wb_curPosition buf) - 1)" by simp
    show ?thesis
      using pool_char_stored [OF pk st z] pool_char_stored [OF pk st k, unfolded e] b b0 True
      by (simp add: entry_matches_def buf_char_def e)
  qed
qed

lemma try_slot_grown_next:
  assumes ok: "table_ok t" and tok: "good_token buf" and g: "pool_grown b t tg" and b: "b \<noteq> 0"
    and i: "i < ht_capacity t" and n: "try_slot t buf i nd dp = Next"
  shows "try_slot tg buf i nd dp = Next"
proof -
  have so: "store_ok t" using ok by (simp add: table_ok_def)
  note f = pool_grown_facts [OF so g b]
  note okg = pool_grown_table_ok(1) [OF ok g b]
  have capg: "ht_capacity tg = ht_capacity t" using g by (simp add: pool_grown_def)
  from try_slot_cases [OF ok tok i, of nd dp] n
  have l: "live (ht_entries t) i"
    and m: "entry_matches (ht_stringsPool t) (ht_entries t ! i) buf dp = Some False"
    by auto
  have il: "i < length (ht_entries t)" using l by (simp add: live_def)
  have pk: "pool_ok (ht_stringsPool t)" and pkg: "pool_ok (ht_stringsPool tg)"
    using so f(4) by (auto simp: store_ok_def)
  have st: "stored (ht_stringsPool t) (ht_entries t ! i)"
    using so l by (auto simp: store_ok_def entries_stored_def live_def)
  have "entry_matches (ht_stringsPool tg) (ht_entries tg ! i) buf dp =
        entry_matches (ht_stringsPool t) (ht_entries t ! i) buf dp"
    using entry_matches_stored [OF pk st tok, of dp] f(2) [OF l] f(3) [OF il]
      entry_matches_stored [OF pkg _ tok, of "ht_entries tg ! i" dp]
    by simp
  then have mg: "entry_matches (ht_stringsPool tg) (ht_entries tg ! i) buf dp = Some False"
    using m by simp
  have lg: "live (ht_entries tg) i" using f(1) l by simp
  have ig: "i < ht_capacity tg" using i capg by simp
  show ?thesis
    using try_slot_cases [OF okg tok ig, of nd dp] mg lg
    by (auto simp: inserted_def live_def)
qed

lemma scan_skip:
  "\<forall>(i, nd, dp) \<in> set pre. try_slot t buf i nd dp = Next \<Longrightarrow>
     scan t buf (pre @ ps) = scan t buf ps"
  by (induction pre) auto

lemma add_word_full_slot:
  assumes ok: "table_ok t" and tok: "good_token buf"
    and r: "WordHashTable_add_word t buf = Some (DATA_STRUCT_FULL, t')"
  shows "\<exists>pre i nd dp post.
           probes_from (ht_capacity t) (hash_index (ht_capacity t) (wb_letters buf)) 0 =
             pre @ (i, nd, dp) # post \<and>
           (\<forall>(j, n', d') \<in> set pre. try_slot t buf j n' d' = Next) \<and>
           i < ht_capacity t \<and> \<not> live (ht_entries t) i"
proof -
  let ?cap = "ht_capacity t"
  let ?h = "hash_index ?cap (wb_letters buf)"
  let ?ps = "probes_from ?cap ?h 0"
  have cap: "0 < ?cap" using ok by (simp add: table_ok_def)
  have h: "?h < ?cap" unfolding hash_index_def using cap by (rule hash_index_lt)
  have bound: "i < ?cap" if "(i, nd, dp) \<in> set ?ps" for i nd dp
    using probes_from_slot_bound(1) [OF that h] .
  have nf: "\<forall>(i, nd, dp) \<in> set ?ps. try_slot t buf i nd dp \<noteq> Fault"
    using bound try_slot_no_fault [OF ok tok] by blast
  have sc: "scan t buf ?ps = Some (DATA_STRUCT_FULL, t')"
    using r add_word_scan [OF ok tok] by simp
  from scan_result [OF nf] sc obtain pre i nd dp post st t1 where
    hit: "?ps = pre @ (i, nd, dp) # post"
      "\<forall>(j, n', d') \<in> set pre. try_slot t buf j n' d' = Next"
      "try_slot t buf i nd dp = Return st t1" "scan t buf ?ps = Some (st, t1)"
    by auto
  have "(i, nd, dp) \<in> set ?ps" using hit(1) by simp
  then have i: "i < ?cap" by (rule bound)
  have "st = DATA_STRUCT_FULL" using hit(4) sc by simp
  then have "\<not> live (ht_entries t) i"
    using try_slot_cases [OF ok tok i, of nd dp] hit(3) by auto
  then show ?thesis using hit(1,2) i by blast
qed

lemma add_word_grown:
  assumes ok: "table_ok t" and tok: "good_token buf"
    and r: "WordHashTable_add_word t buf = Some (DATA_STRUCT_FULL, t')"
    and g: "pool_grown b t tg" and b: "b \<noteq> 0"
  shows "if mp_nextChar (ht_stringsPool tg) + (wb_curPosition buf + 1)
                < mp_capacity (ht_stringsPool tg)
         then \<exists>t'' i dp. WordHashTable_add_word tg buf = Some (SUCCESS, t'') \<and>
                 inserted tg buf i dp t''
         else WordHashTable_add_word tg buf = Some (DATA_STRUCT_FULL, tg)"
proof -
  have so: "store_ok t" using ok by (simp add: table_ok_def)
  note f = pool_grown_facts [OF so g b]
  note okg = pool_grown_table_ok(1) [OF ok g b]
  have capg: "ht_capacity tg = ht_capacity t" using g by (simp add: pool_grown_def)
  let ?ps = "probes_from (ht_capacity t) (hash_index (ht_capacity t) (wb_letters buf)) 0"
  from add_word_full_slot [OF ok tok r] obtain pre i nd dp post where
    ps: "?ps = pre @ (i, nd, dp) # post"
    and nx: "\<forall>(j, n', d') \<in> set pre. try_slot t buf j n' d' = Next"
    and i: "i < ht_capacity t" and nl: "\<not> live (ht_entries t) i"
    by blast
  have cap: "0 < ht_capacity t" using ok by (simp add: table_ok_def)
  have h: "hash_index (ht_capacity t) (wb_letters buf) < ht_capacity t"
    unfolding hash_index_def using cap by (rule hash_index_lt)
  have nxg: "\<forall>(j, n', d') \<in> set pre. try_slot tg buf j n' d' = Next"
  proof -
    have "try_slot tg buf j n' d' = Next" if m: "(j, n', d') \<in> set pre" for j n' d'
    proof -
      have "(j, n', d') \<in> set ?ps" using m ps by simp
      then have j: "j < ht_capacity t" using probes_from_slot_bound(1) [OF _ h] by blast
      have "try_slot t buf j n' d' = Next" using nx m by blast
      then show ?thesis using try_slot_grown_next [OF ok tok g b j] by blast
    qed
    then show ?thesis by blast
  qed
  have sc: "WordHashTable_add_word tg buf = scan tg buf ((i, nd, dp) # post)"
    using add_word_scan [OF okg tok] capg ps scan_skip [OF nxg] by simp
  have nlg: "\<not> live (ht_entries tg) i" using f(1) nl by simp
  have ig: "i < ht_capacity tg" using i capg by simp
  from try_slot_cases [OF okg tok ig, of nd dp] nlg
  consider (full) "try_slot tg buf i nd dp = Return DATA_STRUCT_FULL tg"
      "\<not> mp_nextChar (ht_stringsPool tg) + (wb_curPosition buf + 1)
                < mp_capacity (ht_stringsPool tg)"
    | (ins) t'' where "try_slot tg buf i nd dp = Return SUCCESS t''" "inserted tg buf i dp t''"
    by (auto simp: incremented_def)
  then show ?thesis
  proof cases
    case full
    then show ?thesis using sc by simp
  next
    case ins
    have "mp_nextChar (ht_stringsPool tg) + (wb_curPosition buf + 1)
                < mp_capacity (ht_stringsPool tg)"
      using ins(2) strncpy_good_token(4) [OF tok] by (simp add: inserted_def)
    then show ?thesis using sc ins by auto
  qed
qed



lemma retry_full_result:
  assumes ok: "table_ok t" and tok: "good_token buf"
    and full: "WordHashTable_add_word t buf = Some (DATA_STRUCT_FULL, t')"
  shows "\<exists>j. (\<forall>i<j. heap (2 ^ Suc i * mp_capacity (ht_stringsPool t)) \<noteq> 0 \<and>
                  \<not> mp_nextChar (ht_stringsPool t) + (wb_curPosition buf + 1)
                      < 2 ^ i * mp_capacity (ht_stringsPool t)) \<and>
     (if mp_nextChar (ht_stringsPool t) + (wb_curPosition buf + 1)
           < 2 ^ j * mp_capacity (ht_stringsPool t)
      then \<exists>t''. add_word_retry heap t buf = Some (Inr t'') \<and> table_ok t'' \<and>
             mp_capacity (ht_stringsPool t'') = 2 ^ j * mp_capacity (ht_stringsPool t) \<and>
             ht_capacity t'' = ht_capacity t \<and> ht_size t'' = Suc (ht_size t) \<and>
             report t'' = report_insert (c_str (wb_letters buf)) (report t)
      else heap (2 ^ Suc j * mp_capacity (ht_stringsPool t)) = 0 \<and>
           add_word_retry heap t buf = Some (Inl POOL_OUT_OF_MEMORY))"
  using ok full
proof (induction "mp_nextChar (ht_stringsPool t) + wb_curPosition buf + 2 -
                   mp_capacity (ht_stringsPool t)" arbitrary: t t' rule: less_induct)
  case less
  note ok = less.prems(1) and aw = less.prems(2)
  let ?c = "mp_capacity (ht_stringsPool t)"
  let ?need = "mp_nextChar (ht_stringsPool t) + (wb_curPosition buf + 1)"
  note full = add_word_full [OF ok tok aw]
  have so: "store_ok t" using ok by (simp add: table_ok_def)
  let ?b = "heap (2 * ?c)"
  from pool_expand_result [OF so, of heap] consider
    (oom) "?b = 0" "WordHashTable_MemoryPool_expand heap t = Some (GEN_FAIL, t)"
    | (grown) t2 where "?b \<noteq> 0" "WordHashTable_MemoryPool_expand heap t = Some (SUCCESS, t2)"
        "pool_grown ?b t t2"
    by auto
  then show ?case
  proof cases
    case oom
    have "add_word_retry heap t buf = Some (Inl POOL_OUT_OF_MEMORY)"
      using aw full(1) oom(2) by (subst add_word_retry.simps) simp
    then show ?thesis
      using full(2) oom(1) by (intro exI [of _ 0]) simp
  next
    case grown
    note g = pool_grown_table_ok [OF ok grown(3,1)]
    note f = pool_grown_facts [OF so grown(3,1)]
    have cap: "0 < ?c"
      using ok by (simp add: table_ok_def store_ok_def pool_ok_def)
    have p2: "mp_capacity (ht_stringsPool t2) = 2 * ?c"
      "mp_nextChar (ht_stringsPool t2) = mp_nextChar (ht_stringsPool t)"
      "ht_capacity t2 = ht_capacity t" "ht_size t2 = ht_size t"
      using grown(3) by (simp_all add: pool_grown_def)
    have unf: "add_word_retry heap t buf = add_word_retry heap t2 buf"
      using aw full(1) grown(2) by (subst add_word_retry.simps) simp
    show ?thesis
    proof (cases "?need < 2 * ?c")
      case True
      from add_word_grown [OF ok tok aw grown(3,1)] True p2 obtain t'' i dp where
        s: "WordHashTable_add_word t2 buf = Some (SUCCESS, t'')" and ins: "inserted t2 buf i dp t''"
        by auto
      have r: "add_word_retry heap t2 buf = Some (Inr t'')"
        using s by (subst add_word_retry.simps) simp
      have "table_ok t''" using add_word_success(1) [OF g(1) tok s] .
      moreover have "mp_capacity (ht_stringsPool t'') = 2 * ?c"
        using ins p2 by (simp add: inserted_def written_def)
      moreover have "ht_capacity t'' = ht_capacity t" "ht_size t'' = Suc (ht_size t)"
        using ins p2 by (simp_all add: inserted_def)
      moreover have "report t'' = report_insert (c_str (wb_letters buf)) (report t)"
        using inserted_report [OF g(1) tok ins] f(5) by (simp add: report_insert_def Let_def)
      ultimately show ?thesis
        using True full(2) grown(1) r unf by (intro exI [of _ 1]) simp
    next
      case False
      from add_word_grown [OF ok tok aw grown(3,1)] False p2
      have aw2: "WordHashTable_add_word t2 buf = Some (DATA_STRUCT_FULL, t2)" by simp
      have dec: "mp_nextChar (ht_stringsPool t2) + wb_curPosition buf + 2 -
                   mp_capacity (ht_stringsPool t2)
               < mp_nextChar (ht_stringsPool t) + wb_curPosition buf + 2 - ?c"
        using full(2) cap p2 by simp
      from less.hyps [OF dec g(1) aw2] obtain j where
        j1: "\<forall>i<j. heap (2 ^ Suc i * (2 * ?c)) \<noteq> 0 \<and> \<not> ?need < 2 ^ i * (2 * ?c)"
        and j2: "if ?need < 2 ^ j * (2 * ?c)
          then \<exists>t''. add_word_retry heap t2 buf = Some (Inr t'') \<and> table_ok t'' \<and>
             mp_capacity (ht_stringsPool t'') = 2 ^ j * (2 * ?c) \<and>
             ht_capacity t'' = ht_capacity t \<and> ht_size t'' = Suc (ht_size t) \<and>
             report t'' = report_insert (c_str (wb_letters buf)) (report t)
          else heap (2 ^ Suc j * (2 * ?c)) = 0 \<and>
             add_word_retry heap t2 buf = Some (Inl POOL_OUT_OF_MEMORY)"
        unfolding p2 f(5) by blast
      have pw: "2 ^ k * (2 * ?c) = 2 ^ Suc k * ?c" for k by simp
      have "\<forall>i<Suc j. heap (2 ^ Suc i * ?c) \<noteq> 0 \<and> \<not> ?need < 2 ^ i * ?c"
      proof (intro allI impI)
        fix i assume i: "i < Suc j"
        show "heap (2 ^ Suc i * ?c) \<noteq> 0 \<and> \<not> ?need < 2 ^ i * ?c"
        proof (cases i)
          case 0
          then show ?thesis using grown(1) full(2) by simp
        next
          case (Suc k)
          then have "k < j" using i by simp
          then have "heap (2 ^ Suc k * (2 * ?c)) \<noteq> 0 \<and> \<not> ?need < 2 ^ k * (2 * ?c)"
            using j1 by blast
          then show ?thesis unfolding pw Suc .
        qed
      qed
      moreover have "if ?need < 2 ^ Suc j * ?c
          then \<exists>t''. add_word_retry heap t buf = Some (Inr t'') \<and> table_ok t'' \<and>
             mp_capacity (ht_stringsPool t'') = 2 ^ Suc j * ?c \<and>
             ht_capacity t'' = ht_capacity t \<and> ht_size t'' = Suc (ht_size t) \<and>
             report t'' = report_insert (c_str (wb_letters buf)) (report t)
          else heap (2 ^ Suc (Suc j) * ?c) = 0 \<and>
             add_word_retry heap t buf = Some (Inl POOL_OUT_OF_MEMORY)"
        using j2 unfolding unf pw .
      ultimately show ?thesis by (intro exI [of _ "Suc j"] conjI)
    qed
  qed
qed

section \<open>The example inputs, evaluated\<close>

lemma good_token_buf_of: "w \<noteq> [] \<Longrightarrow> NUL \<notin> set w \<Longrightarrow> good_token (buf_of w)"
  by (auto simp: good_token_def buf_of_def)

lemma ex_table_a_reached:
  "Option.bind (WordHashTable_create plenty 1) (\<lambda>t. WordHashTable_add_word t (buf_of ''a'')) =
     Some (SUCCESS, ex_table_a)"
  by code_simp

lemma ex_table_empty_created: "WordHashTable_create plenty 2 = Some ex_table_empty"
  by code_simp

lemma ex_try: "try_slot ex_table_a (buf_of ''bb'') 0 0 0 = Next"
  by code_simp

lemma ex_probes: "probes_from 1 0 0 = [(0, 0, 0)]"
  by (simp add: probes_from_def probe_at_def)

lemma ex_full: "WordHashTable_add_word ex_table_empty (buf_of ''elevenchars'') = Some (DATA_STRUCT_FULL, ex_table_empty)"
  by code_simp

lemma ex_retry: "map_option (map_sum id report) (add_word_retry moving ex_table_empty (buf_of ''elevenchars'')) = Some (Inr [(''elevenchars'', 1)])"
  by code_simp

lemma scan_all_next:
  "\<forall>(i, nd, dp) \<in> set ps. try_slot t buf i nd dp = Next \<Longrightarrow> scan t buf ps = Some (GEN_FAIL, t)"
  by (induction ps) auto

lemma ex_table_a_ok: "table_ok ex_table_a"
proof -
  from ex_table_a_reached obtain t0 where
    c: "WordHashTable_create plenty 1 = Some t0"
    and a: "WordHashTable_add_word t0 (buf_of ''a'') = Some (SUCCESS, ex_table_a)"
    by (auto simp: bind_eq_Some_conv)
  have "good_token (buf_of ''a'')" by (rule good_token_buf_of) (simp_all add: NUL_def)
  then show ?thesis using add_word_success(1) [OF create_table_ok(1) [OF c] _ a] by simp
qed

lemma ex_table_empty_ok: "table_ok ex_table_empty"
  using create_table_ok(1) [OF ex_table_empty_created] by simp

lemma ex_grow:
  "WordHashTable_MemoryPool_expand moving ex_table_a =
     Some (SUCCESS, ex_table_a
       \<lparr>ht_entries := [\<lparr>e_letters = 4108, e_count = 1, e_length = 2, e_displacement = 0\<rparr>],
        ht_stringsPool := \<lparr>mp_memSpace = 4108, mp_cells = ''a'' @ replicate 11 NUL,
                           mp_nextChar = 2, mp_capacity = 12\<rparr>\<rparr>)"
  by code_simp

lemma ex_table_two_reached:
  "Option.bind (WordHashTable_create plenty 2) (\<lambda>t. WordHashTable_add_word t (buf_of ''a'')) =
     Some (SUCCESS, ex_table_two)"
  by code_simp

lemma ex_table_two_ok: "table_ok ex_table_two"
proof -
  from ex_table_two_reached obtain t0 where
    c: "WordHashTable_create plenty 2 = Some t0"
    and a: "WordHashTable_add_word t0 (buf_of ''a'') = Some (SUCCESS, ex_table_two)"
    by (auto simp: bind_eq_Some_conv)
  have "good_token (buf_of ''a'')" by (rule good_token_buf_of) (simp_all add: NUL_def)
  then show ?thesis using add_word_success(1) [OF create_table_ok(1) [OF c] _ a] by simp
qed

lemma ex_two_full:
  "WordHashTable_add_word ex_table_two (buf_of ''counterrevolutionaries'') =
     Some (DATA_STRUCT_FULL, ex_table_two)"
  by code_simp

lemma ex_two_report:
  "report_insert ''counterrevolutionaries'' (report ex_table_two) =
     [(''a'', 1), (''counterrevolutionaries'', 1)]"
  by code_simp

lemma ex_two_token: "good_token (buf_of ''counterrevolutionaries'')"
  by (rule good_token_buf_of) (simp_all add: NUL_def)

lemma ex_two_c_str: "c_str (wb_letters (buf_of ''counterrevolutionaries'')) = ''counterrevolutionaries''"
  by code_simp

lemma ex_table_bbag_reached:
  "Option.bind (WordHashTable_create plenty 4) (\<lambda>t0.
     Option.bind (WordHashTable_add_word t0 (buf_of ''b'')) (\<lambda>(s1, t1).
       Option.bind (WordHashTable_add_word t1 (buf_of ''b'')) (\<lambda>(s2, t2).
         WordHashTable_add_word t2 (buf_of ''ag'')))) = Some (SUCCESS, ex_table_bbag)"
  by code_simp

lemma ex_bbag_expand:
  "map_option (map_prod id stats_view) (WordHashTable_expand plenty ex_table_bbag) =
     Some (SUCCESS, 7, 7, [0, 0, 0, 3, 0, 0, 0, 2], [0, 0, 0, 1, 0, 0, 0, 2])"
  by code_simp

lemma ex_bbag_main:
  "map_option (map_sum id stats_view) (Option.bind (tokenize plenty ''b b ag'') (count_tokens plenty)) =
     Some (Inr (7, 7, [0, 0, 0, 3, 0, 0, 0, 2], [0, 0, 0, 1, 0, 0, 0, 2]))"
  by code_simp

lemma ex_oggzsm_main:
  "map_option (map_sum id stats_view)
     (Option.bind (tokenize plenty ''o g g z s m'') (count_tokens plenty)) =
     Some (Inr (10, 10, [0, 0, 2, 0, 0, 0, 2, 2, 2, 0, 2, 0, 0, 0, 0, 0],
                        [0, 0, 2, 0, 0, 0, 1, 1, 1, 0, 1, 0, 0, 0, 0, 0]))"
  by code_simp

section \<open>The claims\<close>

subsection \<open>C4: boundary cases of the tokenizer\<close>

lemma tokens_its:
  "map_option vec_words (tokenize plenty [CHR ''i'', CHR ''t'', CHR 0x27, CHR ''s'']) =
     Some [[CHR ''i'', CHR ''t'', CHR 0x27, CHR ''s'']]"
  by code_simp

lemma tokens_end_dot: "map_option vec_words (tokenize plenty ''end.'') = Some [''end'']"
  by code_simp

lemma tokens_a_dash_dash_b: "map_option vec_words (tokenize plenty ''a--b'') = Some [''a'', ''b'']"
  by code_simp

lemma tokens_a_dash_dash_space_b:
  "map_option vec_words (tokenize plenty ''a-- b'') = Some [''a'', ''b'']"
  by code_simp

text \<open>
  C4 as stated fails: on the input \<open>a--b\<close> the tokenizer does not produce the single
  token \<open>a--b\<close>. The second hyphen arrives in the state \<open>IN_WORD_AFTER_SYMBOL\<close>,
  whose default branch drops the first hyphen and pushes the word \<open>a\<close>.
\<close>

theorem C4_a_dash_dash_b_counterexample:
  "map_option vec_words (tokenize plenty ''a--b'') \<noteq> Some [''a--b'']"
  by (simp add: tokens_a_dash_dash_b)

text \<open>
  C4, amended: with every allocation granted, the input \<open>it's\<close> gives the single
  token \<open>it's\<close>, \<open>end.\<close> the single token \<open>end\<close>, \<open>a--b\<close> the two tokens \<open>a\<close> and
  \<open>b\<close>, \<open>a-- b\<close> the tokens \<open>a\<close> and \<open>b\<close>, and an input without letters and digits
  (the empty input among them) no token.
\<close>

theorem C4_tokenizer_boundary_cases:
  "map_option vec_words (tokenize plenty [CHR ''i'', CHR ''t'', CHR 0x27, CHR ''s'']) =
     Some [[CHR ''i'', CHR ''t'', CHR 0x27, CHR ''s'']] \<and>
   map_option vec_words (tokenize plenty ''end.'') = Some [''end''] \<and>
   map_option vec_words (tokenize plenty ''a--b'') = Some [''a'', ''b''] \<and>
   map_option vec_words (tokenize plenty ''a-- b'') = Some [''a'', ''b''] \<and>
   map_option vec_words (tokenize plenty []) = Some [] \<and>
   ((\<forall>c \<in> set inp. get_char_type c = IN_WORD_SYMBOL \<or> get_char_type c = OTHER_SYMBOL) \<longrightarrow>
      map_option vec_words (tokenize plenty inp) = Some [])"
  using tokens_its tokens_end_dot tokens_a_dash_dash_b tokens_a_dash_dash_space_b
    non_word_chars_no_tokens [of "[]"] non_word_chars_no_tokens [of inp]
  by simp

lemma symbols_types_list:
  "map (get_char_type) ''-- ., @!'' =
     [IN_WORD_SYMBOL, IN_WORD_SYMBOL, OTHER_SYMBOL, IN_WORD_SYMBOL, IN_WORD_SYMBOL,
      OTHER_SYMBOL, IN_WORD_SYMBOL, OTHER_SYMBOL]"
  by (simp add: get_char_type_def is_letter_def is_number_def is_inword_symbol_def
      inWrdSymbols_def to_lowercase_def)

lemma symbols_only_types:
  "\<forall>c \<in> set ''-- ., @!''. get_char_type c = IN_WORD_SYMBOL \<or> get_char_type c = OTHER_SYMBOL"
  by (simp add: get_char_type_def is_letter_def is_number_def is_inword_symbol_def
      inWrdSymbols_def to_lowercase_def)

theorem C4_tokenizer_boundary_cases_witness:
  "map (get_char_type) ''-- ., @!'' =
     [IN_WORD_SYMBOL, IN_WORD_SYMBOL, OTHER_SYMBOL, IN_WORD_SYMBOL, IN_WORD_SYMBOL,
      OTHER_SYMBOL, IN_WORD_SYMBOL, OTHER_SYMBOL] \<and>
   map_option vec_words (tokenize plenty ''-- ., @!'') = Some []"
proof -
  have "map_option vec_words (tokenize plenty ''-- ., @!'') = Some []"
    using C4_tokenizer_boundary_cases [of "''-- ., @!''"] symbols_only_types by blast
  then show ?thesis
    by (intro conjI) (rule symbols_types_list, assumption)
qed

subsection \<open>C10: every token is non-empty\<close>




subsection \<open>C6: the pool moves, the words stay\<close>

text \<open>
  C6: after a successful \<open>WordHashTable_MemoryPool_expand\<close>, the C string read
  through the string pointer of every live entry is the one read before; the
  pointer is the old one minus the old base of the pool plus the new base; it
  points into the allocated part of the new block; and the report is the same.
\<close>

theorem C6_pool_relocation:
  assumes "store_ok t" and "WordHashTable_MemoryPool_expand heap t = Some (SUCCESS, t')"
    and "live (ht_entries t) k"
  shows "pool_string (ht_stringsPool t') (e_letters (ht_entries t' ! k)) =
           pool_string (ht_stringsPool t) (e_letters (ht_entries t ! k)) \<and>
         pool_string (ht_stringsPool t) (e_letters (ht_entries t ! k)) =
           Some (word_of (ht_stringsPool t) (ht_entries t ! k)) \<and>
         e_letters (ht_entries t' ! k) =
           nat (int (e_letters (ht_entries t ! k)) - int (mp_memSpace (ht_stringsPool t)) +
                int (mp_memSpace (ht_stringsPool t'))) \<and>
         stored (ht_stringsPool t') (ht_entries t' ! k) \<and>
         live (ht_entries t') k \<and> report t' = report t"
proof -
  let ?b = "heap (2 * mp_capacity (ht_stringsPool t))"
  from pool_expand_result [OF assms(1), of heap] assms(2)
  have b: "?b \<noteq> 0" and g: "pool_grown ?b t t'" by auto
  note f = pool_grown_facts [OF assms(1) g b]
  have pk: "pool_ok (ht_stringsPool t)" and pk': "pool_ok (ht_stringsPool t')"
    using assms(1) f(4) by (auto simp: store_ok_def)
  have k: "k < length (ht_entries t)" and st: "stored (ht_stringsPool t) (ht_entries t ! k)"
    using assms(1,3) by (auto simp: live_def store_ok_def entries_stored_def)
  note w = f(2) [OF assms(3)]
  have r1: "pool_string (ht_stringsPool t) (e_letters (ht_entries t ! k)) =
      Some (word_of (ht_stringsPool t) (ht_entries t ! k))"
    using pool_string_stored [OF pk st] .
  have r2: "pool_string (ht_stringsPool t') (e_letters (ht_entries t' ! k)) =
      Some (word_of (ht_stringsPool t) (ht_entries t ! k))"
    using pool_string_stored [OF pk'] w by simp
  have "ht_entries t' ! k = rebased (mp_memSpace (ht_stringsPool t)) ?b (ht_entries t ! k)"
    and "mp_memSpace (ht_stringsPool t') = ?b"
    using g k assms(3) by (simp_all add: pool_grown_def)
  then have r3: "e_letters (ht_entries t' ! k) =
           nat (int (e_letters (ht_entries t ! k)) - int (mp_memSpace (ht_stringsPool t)) +
                int (mp_memSpace (ht_stringsPool t')))"
    by (simp add: rebased_def)
  show ?thesis using r1 r2 r3 w f(1) [of k] assms(3) f(5) by simp
qed

theorem C6_pool_relocation_witness:
  "\<exists>t'. WordHashTable_MemoryPool_expand moving ex_table_a = Some (SUCCESS, t') \<and>
        mp_memSpace (ht_stringsPool ex_table_a) = 4096 \<and>
        mp_memSpace (ht_stringsPool t') = 4108 \<and>
        e_letters (ht_entries t' ! 0) = 4108 \<and>
        pool_string (ht_stringsPool ex_table_a) (e_letters (ht_entries ex_table_a ! 0)) = Some ''a'' \<and>
        pool_string (ht_stringsPool t') (e_letters (ht_entries t' ! 0)) = Some ''a''"
proof -
  have so: "store_ok ex_table_a" using ex_table_a_ok by (simp add: table_ok_def)
  have lv: "live (ht_entries ex_table_a) 0" by (simp add: live_def ex_table_a_def)
  have rd: "pool_string (ht_stringsPool ex_table_a) (e_letters (ht_entries ex_table_a ! 0)) = Some ''a''"
    by code_simp
  show ?thesis
    using C6_pool_relocation [OF so ex_grow lv] rd ex_grow
    by (simp add: ex_table_a_def)
qed

subsection \<open>C8: a full pool leaves the table unchanged, and the retry loop\<close>

text \<open>
  C8: when \<open>WordHashTable_add_word\<close> answers \<open>DATA_STRUCT_FULL\<close> on a well-formed
  table, the table it leaves is the table it was given, field by field. The loop of
  \<open>main\<close> that expands the pool and adds the same word again then returns, and its
  answer is fixed by the allocator: there is a number \<open>j\<close> of doublings such that each
  of the first \<open>j\<close> requests (for \<open>2 * c\<close>, \<open>4 * c\<close>, ... bytes, \<open>c\<close> the capacity of the
  pool) was granted while the word did not fit; if the word fits in \<open>2 ^ j * c\<close> bytes
  the loop returns a well-formed table whose pool has that capacity and whose report
  is the old report with the word inserted at its place with count one; otherwise
  the next request was refused and the loop returns \<open>POOL_OUT_OF_MEMORY\<close>. So the loop
  fails only when the allocator refuses a request, and succeeds when it grants them.
\<close>

theorem C8_pool_full_retry:
  assumes "table_ok t" and "good_token buf"
    and "WordHashTable_add_word t buf = Some (DATA_STRUCT_FULL, t')"
  shows "t' = t \<and>
     (\<exists>j. (\<forall>i<j. heap (2 ^ Suc i * mp_capacity (ht_stringsPool t)) \<noteq> 0 \<and>
                  \<not> mp_nextChar (ht_stringsPool t) + (wb_curPosition buf + 1)
                      < 2 ^ i * mp_capacity (ht_stringsPool t)) \<and>
        (if mp_nextChar (ht_stringsPool t) + (wb_curPosition buf + 1)
              < 2 ^ j * mp_capacity (ht_stringsPool t)
         then \<exists>t''. add_word_retry heap t buf = Some (Inr t'') \<and> table_ok t'' \<and>
                mp_capacity (ht_stringsPool t'') = 2 ^ j * mp_capacity (ht_stringsPool t) \<and>
                ht_capacity t'' = ht_capacity t \<and> ht_size t'' = Suc (ht_size t) \<and>
                report t'' = report_insert (c_str (wb_letters buf)) (report t)
         else heap (2 ^ Suc j * mp_capacity (ht_stringsPool t)) = 0 \<and>
              add_word_retry heap t buf = Some (Inl POOL_OUT_OF_MEMORY)))"
  using add_word_full(1) [OF assms] retry_full_result [OF assms, of heap] by blast

theorem C8_pool_full_retry_witness:
  "WordHashTable_add_word ex_table_two (buf_of ''counterrevolutionaries'') =
     Some (DATA_STRUCT_FULL, ex_table_two) \<and>
   (\<exists>t''. add_word_retry moving ex_table_two (buf_of ''counterrevolutionaries'') = Some (Inr t'') \<and>
      table_ok t'' \<and> mp_capacity (ht_stringsPool t'') = 48 \<and> ht_size t'' = 2 \<and>
      report t'' = [(''a'', 1), (''counterrevolutionaries'', 1)]) \<and>
   add_word_retry (refusing 48) ex_table_two (buf_of ''counterrevolutionaries'') =
     Some (Inl POOL_OUT_OF_MEMORY)"
proof -
  let ?buf = "buf_of ''counterrevolutionaries''"
  have c: "mp_capacity (ht_stringsPool ex_table_two) = 12"
    "mp_nextChar (ht_stringsPool ex_table_two) + (wb_curPosition ?buf + 1) = 25"
    "ht_size ex_table_two = 1"
    by (simp_all add: ex_table_two_def buf_of_def)
  have granted: "\<exists>t''. add_word_retry moving ex_table_two ?buf = Some (Inr t'') \<and>
      table_ok t'' \<and> mp_capacity (ht_stringsPool t'') = 48 \<and> ht_size t'' = 2 \<and>
      report t'' = [(''a'', 1), (''counterrevolutionaries'', 1)]"
  proof -
    from C8_pool_full_retry [OF ex_table_two_ok ex_two_token ex_two_full, of moving]
    obtain j where
      j1: "\<forall>i<j. moving (2 ^ Suc i * 12) \<noteq> 0 \<and> \<not> (25 :: nat) < 2 ^ i * 12"
      and j2: "if (25 :: nat) < 2 ^ j * 12
         then \<exists>t''. add_word_retry moving ex_table_two ?buf = Some (Inr t'') \<and> table_ok t'' \<and>
                mp_capacity (ht_stringsPool t'') = 2 ^ j * 12 \<and>
                ht_capacity t'' = ht_capacity ex_table_two \<and> ht_size t'' = Suc 1 \<and>
                report t'' = report_insert (c_str (wb_letters ?buf)) (report ex_table_two)
         else moving (2 ^ Suc j * 12) = 0 \<and>
              add_word_retry moving ex_table_two ?buf = Some (Inl POOL_OUT_OF_MEMORY)"
      unfolding c by blast
    have le: "\<not> 2 < j" using j1 [rule_format, of 2] by auto
    have fit: "(25 :: nat) < 2 ^ j * 12" using j2 by (auto simp: moving_def split: if_splits)
    have "j \<noteq> 0"
    proof
      assume "j = 0"
      then show False using fit by simp
    qed
    moreover have "j \<noteq> 1"
    proof
      assume "j = 1"
      then show False using fit by simp
    qed
    ultimately have j: "j = 2" using le by arith
    show ?thesis
      using j2 fit unfolding j ex_two_c_str ex_two_report by auto
  qed
  have refused: "add_word_retry (refusing 48) ex_table_two ?buf = Some (Inl POOL_OUT_OF_MEMORY)"
  proof -
    from C8_pool_full_retry [OF ex_table_two_ok ex_two_token ex_two_full, of "refusing 48"]
    obtain j where
      j1: "\<forall>i<j. refusing 48 (2 ^ Suc i * 12) \<noteq> 0 \<and> \<not> (25 :: nat) < 2 ^ i * 12"
      and j2: "if (25 :: nat) < 2 ^ j * 12
         then \<exists>t''. add_word_retry (refusing 48) ex_table_two ?buf = Some (Inr t'')
         else add_word_retry (refusing 48) ex_table_two ?buf = Some (Inl POOL_OUT_OF_MEMORY)"
      unfolding c by (auto split: if_splits)
    have "\<not> 1 < j" using j1 [rule_format, of 1] by (auto simp: refusing_def)
    then have "j = 0 \<or> j = 1" by arith
    then have "\<not> (25 :: nat) < 2 ^ j * 12" by auto
    then show ?thesis using j2 by simp
  qed
  show ?thesis using ex_two_full granted refused by blast
qed

subsection \<open>C9: the probing loop terminates\<close>

text \<open>
  C9: the probing loop of \<open>WordHashTable_add_word\<close>, started at the displacement
  counter \<open>d\<close>, is the scan of a finite list of slots: those of the counters \<open>d\<close>,
  \<open>d + 1\<close>, ... below \<open>max (capacity - hashIndex) (hashIndex + 1)\<close>, which is the
  first counter for which \<open>hashIndex + d\<close> and \<open>hashIndex - d\<close> are both outside the
  table. If none of these slots is empty or passes the pre-check, the loop returns
  \<open>GEN_FAIL\<close> and leaves the table as it was.
\<close>

theorem C9_probing_terminates:
  "add_word_loop t buf h d =
     scan t buf (concat (map (probe_at (ht_capacity t) h)
                   (d # [d + 1..<max (ht_capacity t - h) (h + 1)]))) \<and>
   ((h + d < ht_capacity t \<or> d \<le> h) = (d < max (ht_capacity t - h) (h + 1))) \<and>
   ((\<forall>(i, nd, dp) \<in> set (concat (map (probe_at (ht_capacity t) h)
                   (d # [d + 1..<max (ht_capacity t - h) (h + 1)]))).
        try_slot t buf i nd dp = Next) \<longrightarrow>
     add_word_loop t buf h d = Some (GEN_FAIL, t))"
proof -
  let ?slots = "concat (map (probe_at (ht_capacity t) h)
                   (d # [d + 1..<max (ht_capacity t - h) (h + 1)]))"
  have eq: "add_word_loop t buf h d = scan t buf ?slots"
    using add_word_loop_scan [of t buf h d] by (simp add: probes_from_def)
  moreover have "(h + d < ht_capacity t \<or> d \<le> h) = (d < max (ht_capacity t - h) (h + 1))"
    by auto
  moreover have "add_word_loop t buf h d = Some (GEN_FAIL, t)"
    if "\<forall>(i, nd, dp) \<in> set ?slots. try_slot t buf i nd dp = Next"
    unfolding eq using that by (rule scan_all_next)
  ultimately show ?thesis by blast
qed

theorem C9_probing_terminates_witness:
  "add_word_loop ex_table_a (buf_of ''bb'') 0 0 = Some (GEN_FAIL, ex_table_a)"
proof -
  have cap: "ht_capacity ex_table_a = 1" by (simp add: ex_table_a_def)
  have "concat (map (probe_at (ht_capacity ex_table_a) 0) (0 # [0 + 1..<max (ht_capacity ex_table_a - 0) (0 + 1)])) = [(0, 0, 0)]"
    unfolding cap by (simp add: probe_at_def)
  then show ?thesis
    using C9_probing_terminates [of ex_table_a "buf_of ''bb''" 0 0] ex_try by simp
qed

subsection \<open>C7: the indices of the longest and of the most frequent word\<close>

text \<open>
  C7 does not hold of the code: \<open>WordHashTable_migrate\<close> compares the old slot of
  each entry it moves with \<open>maxLengthWordIndex\<close> and \<open>maxCountWordIndex\<close> as they are
  at that moment, so an index already rewritten to a new slot is rewritten again
  when a later entry comes from the old slot of that number. In the table of four
  slots holding \<open>b\<close> (slot 3, count 2) and \<open>ag\<close> (slot 2, length 3 with its
  terminator) the longest word is at slot 2; the expansion moves \<open>ag\<close> to slot 3 and
  \<open>b\<close> to slot 7, and leaves \<open>maxLengthWordIndex = 7\<close>, the slot of \<open>b\<close>, whose length
  2 is below the length 3 of the live entry at slot 3. The program reaches this
  state on the input \<open>b b ag\<close>. On the input \<open>o g g z s m\<close> it ends with
  \<open>maxCountWordIndex = 10\<close>, an entry of count 1, while the entry at slot 2 has
  count 2. (The four components are \<open>maxLengthWordIndex\<close>, \<open>maxCountWordIndex\<close>, the
  lengths and the counts of the slots.)
\<close>

theorem C7_migrate_stale_max_index:
  "stats_view ex_table_bbag = (2, 3, [0, 0, 3, 2], [0, 0, 1, 2]) \<and>
   map_option (map_prod id stats_view) (WordHashTable_expand plenty ex_table_bbag) =
     Some (SUCCESS, 7, 7, [0, 0, 0, 3, 0, 0, 0, 2], [0, 0, 0, 1, 0, 0, 0, 2]) \<and>
   map_option (map_sum id stats_view) (Option.bind (tokenize plenty ''b b ag'') (count_tokens plenty)) =
     Some (Inr (7, 7, [0, 0, 0, 3, 0, 0, 0, 2], [0, 0, 0, 1, 0, 0, 0, 2])) \<and>
   map_option (map_sum id stats_view)
     (Option.bind (tokenize plenty ''o g g z s m'') (count_tokens plenty)) =
     Some (Inr (10, 10, [0, 0, 2, 0, 0, 0, 2, 2, 2, 0, 2, 0, 0, 0, 0, 0],
                        [0, 0, 2, 0, 0, 0, 1, 1, 1, 0, 1, 0, 0, 0, 0, 0]))"
proof -
  have "stats_view ex_table_bbag = (2, 3, [0, 0, 3, 2], [0, 0, 1, 2])"
    by (simp add: stats_view_def ex_table_bbag_def zero_entry_def)
  then show ?thesis
    using ex_bbag_expand ex_bbag_main ex_oggzsm_main by (intro conjI)
qed

end
